theory Spec2Isabelle
  imports Main "HOL-Library.Word" "HOL-Library.AList"
begin

section \<open>RTP forwarder: the viewer reference count\<close>

text \<open>
  The forwarder keeps \<open>subscribers int\<close>, guarded by its own mutex. Go's \<open>int\<close> is a
  two's-complement machine integer, 64 bits wide on the 64-bit Linux that the repository's
  Dockerfile builds for, so the field is a 64-bit word that wraps around and is read as a
  signed value.
  \<open>AddSubscriber\<close> increments it, \<open>RemoveSubscriber\<close> decrements it and returns the
  new value, \<open>GetSubscriberCount\<close> reads it. Each method holds \<open>subMutex\<close> for its whole
  body, so every call is one atomic step on the field.
\<close>

record RTPForwarder =
  fwd_cameraID :: string
  fwd_hasAudio :: bool
  fwd_running :: bool
  subscribers :: "64 word"

definition NewRTPForwarder :: "string \<Rightarrow> bool \<Rightarrow> RTPForwarder" where
  "NewRTPForwarder cameraID audioEnabled =
     \<lparr>fwd_cameraID = cameraID, fwd_hasAudio = audioEnabled, fwd_running = False, subscribers = 0\<rparr>"

definition AddSubscriber :: "RTPForwarder \<Rightarrow> RTPForwarder" where
  "AddSubscriber f = f\<lparr>subscribers := subscribers f + 1\<rparr>"

definition RemoveSubscriber :: "RTPForwarder \<Rightarrow> int \<times> RTPForwarder" where
  "RemoveSubscriber f =
     (let f' = f\<lparr>subscribers := subscribers f - 1\<rparr> in (sint (subscribers f'), f'))"

definition GetSubscriberCount :: "RTPForwarder \<Rightarrow> int" where
  "GetSubscriberCount f = sint (subscribers f)"

text \<open>A sequence of calls made by the owning server, applied in order.\<close>

datatype sub_call = Add | Remove

fun sub_step :: "RTPForwarder \<Rightarrow> sub_call \<Rightarrow> RTPForwarder" where
  "sub_step f Add = AddSubscriber f"
| "sub_step f Remove = snd (RemoveSubscriber f)"

definition sub_calls :: "sub_call list \<Rightarrow> RTPForwarder \<Rightarrow> RTPForwarder" where
  "sub_calls cs f = foldl sub_step f cs"

text \<open>The value observed after each call of the sequence, in order.\<close>

fun sub_trace :: "RTPForwarder \<Rightarrow> sub_call list \<Rightarrow> int list" where
  "sub_trace f [] = []"
| "sub_trace f (c # cs) = GetSubscriberCount (sub_step f c) # sub_trace (sub_step f c) cs"

definition adds :: "sub_call list \<Rightarrow> nat" where
  "adds cs = length (filter (\<lambda>c. c = Add) cs)"

definition removes :: "sub_call list \<Rightarrow> nat" where
  "removes cs = length (filter (\<lambda>c. c = Remove) cs)"

section \<open>Video demux\<close>

text \<open>
  \<open>readMJPEGStream\<close> appends what each read returns to a working buffer and scans the
  buffer for JPEG images: the first start marker \<open>FF D8\<close>, then the first end marker
  \<open>FF D9\<close> at or after it. Each image found is copied out, stored as the last frame and
  broadcast, and the scan goes on behind it. Bytes are 8-bit words; \<open>findBytes\<close> returns
  an index or \<open>-1\<close> as the Go function does.
\<close>

type_synonym bytes = "8 word list"

definition jpegStart :: bytes where
  "jpegStart = [0xFF, 0xD8]"

definition jpegEnd :: bytes where
  "jpegEnd = [0xFF, 0xD9]"

text \<open>The inner loop of \<open>findBytes\<close>: does \<open>pattern\<close> stand at index \<open>i\<close> of \<open>data\<close>?\<close>

definition matchAt :: "bytes \<Rightarrow> bytes \<Rightarrow> nat \<Rightarrow> bool" where
  "matchAt data pattern i = list_all (\<lambda>j. data ! (i + j) = pattern ! j) [0..<length pattern]"

text \<open>The outer loop, from index \<open>i\<close> on, while \<open>i <= len(data) - len(pattern)\<close>.\<close>

function findFrom :: "bytes \<Rightarrow> bytes \<Rightarrow> nat \<Rightarrow> int" where
  "findFrom data pattern i =
     (if i + length pattern \<le> length data
      then (if matchAt data pattern i then int i else findFrom data pattern (Suc i))
      else - 1)"
  by pat_completeness auto
termination
  by (relation "measure (\<lambda>(data, pattern, i). Suc (length data) - (i + length pattern))") auto

declare findFrom.simps [simp del]

definition findBytes :: "bytes \<Rightarrow> bytes \<Rightarrow> int" where
  "findBytes data pattern =
     (if length pattern = 0 \<or> length data < length pattern then - 1
      else findFrom data pattern 0)"

text \<open>
  The scan of the working buffer after a read: the frames it emits, in order, and the
  buffer it leaves. It stops at the first buffer with no start marker, or with no end
  marker from the first start marker on. Each round drops at least the two bytes of an
  end marker, so the scan ends.
\<close>

function parseFrames :: "bytes \<Rightarrow> bytes list \<times> bytes" where
  "parseFrames frameBuffer =
     (let startIdx = findBytes frameBuffer jpegStart in
      if startIdx = - 1 then ([], frameBuffer)
      else
        let endIdx = findBytes (drop (nat startIdx) frameBuffer) jpegEnd in
        if endIdx = - 1 then ([], frameBuffer)
        else
          let endIdx' = endIdx + startIdx + 2;
              frame = take (nat (endIdx' - startIdx)) (drop (nat startIdx) frameBuffer);
              (frames, rest) = parseFrames (drop (nat endIdx') frameBuffer)
          in (frame # frames, rest))"
  by pat_completeness auto
termination
proof (relation "measure length")
  show "wf (measure length)"
    by simp
next
  fix frameBuffer :: bytes and startIdx endIdx endIdx'
  assume s: "startIdx = findBytes frameBuffer jpegStart" "startIdx \<noteq> - 1"
    and e: "endIdx = findBytes (drop (nat startIdx) frameBuffer) jpegEnd" "endIdx \<noteq> - 1"
    and e': "endIdx' = endIdx + startIdx + 2"
  have rng: "findFrom d p i \<noteq> - 1 \<Longrightarrow> int i \<le> findFrom d p i \<and> i + length p \<le> length d"
    for d p i
  proof (induction d p i rule: findFrom.induct)
    case (1 d p i)
    show ?case
    proof (cases "i + length p \<le> length d")
      case False
      with "1.prems" show ?thesis
        by (simp add: findFrom.simps [of d p i])
    next
      case inb: True
      show ?thesis
      proof (cases "matchAt d p i")
        case True
        with inb show ?thesis
          by (simp add: findFrom.simps [of d p i])
      next
        case False
        with inb "1.prems" have "findFrom d p (Suc i) \<noteq> - 1"
          by (simp add: findFrom.simps [of d p i])
        from "1.IH" [OF inb False this] inb False show ?thesis
          by (simp add: findFrom.simps [of d p i])
      qed
    qed
  qed
  have found: "findBytes d p \<noteq> - 1 \<Longrightarrow> 0 \<le> findBytes d p \<and> d \<noteq> []" for d p
    using rng [of d p 0] by (auto simp: findBytes_def split: if_splits)
  from found [of frameBuffer jpegStart] s have "0 \<le> startIdx" "frameBuffer \<noteq> []"
    by simp_all
  moreover from found [of "drop (nat startIdx) frameBuffer" jpegEnd] e have "0 \<le> endIdx"
    by simp
  ultimately show "(drop (nat endIdx') frameBuffer, frameBuffer) \<in> measure length"
    using e' by simp
qed

declare parseFrames.simps [simp del]

text \<open>
  One round of the read loop: append the read to the buffer, scan, and when more than
  2 MB are left keep only the last 1 MB.
\<close>

definition demuxChunk :: "bytes \<Rightarrow> bytes \<Rightarrow> bytes list \<times> bytes" where
  "demuxChunk frameBuffer chunk =
     (let (frames, rest) = parseFrames (frameBuffer @ chunk);
          rest' = (if length rest > 2 * 1024 * 1024
                   then drop (length rest - 1024 * 1024) rest else rest)
      in (frames, rest'))"

text \<open>The loop over the reads of a stream, until the read that fails or reports the end.\<close>

fun demuxStream :: "bytes \<Rightarrow> bytes list \<Rightarrow> bytes list \<times> bytes" where
  "demuxStream frameBuffer [] = ([], frameBuffer)"
| "demuxStream frameBuffer (chunk # chunks) =
     (let (frames, frameBuffer') = demuxChunk frameBuffer chunk;
          (frames', frameBuffer'') = demuxStream frameBuffer' chunks
      in (frames @ frames', frameBuffer''))"

text \<open>
  Two notions for stating what the scan does: a pattern standing at an index of a buffer,
  and a buffer put together from stretches of other bytes and frames in turn.
\<close>

definition occurs_at :: "bytes \<Rightarrow> bytes \<Rightarrow> nat \<Rightarrow> bool" where
  "occurs_at data pattern i \<longleftrightarrow>
     i + length pattern \<le> length data \<and> take (length pattern) (drop i data) = pattern"

fun weave :: "bytes list \<Rightarrow> bytes list \<Rightarrow> bytes" where
  "weave (g # gs) (f # fs) = g @ f @ weave gs fs"
| "weave _ _ = []"

section \<open>Channels\<close>

text \<open>
  A subscriber queue is a buffered Go channel of byte slices. Channels are reference
  values: the subscriber tables and the consumers hold the same channel. The model keeps
  every channel ever made in a list (the index is the reference), so that a channel taken
  out of a table is still there to be looked at.

  Runtime panics are a result of their own: closing a closed channel, closing a nil
  channel and sending on a closed channel abort the goroutine.
\<close>

datatype panic = CloseOfClosedChannel | CloseOfNilChannel | SendOnClosedChannel

record chan =
  cap :: nat
  buf :: "bytes list"
  closed :: bool

type_synonym heap = "chan list"

type_synonym subs = "(string \<times> nat) list"

text \<open>\<open>make(chan []byte, n)\<close>: a new open channel, empty, with room for \<open>n\<close> items.\<close>

definition makeChan :: "heap \<Rightarrow> nat \<Rightarrow> nat \<times> heap" where
  "makeChan h n = (length h, h @ [\<lparr>cap = n, buf = [], closed = False\<rparr>])"

text \<open>\<open>close(ch)\<close>. A reference outside the list stands for the nil channel.\<close>

definition closeChan :: "heap \<Rightarrow> nat \<Rightarrow> panic + heap" where
  "closeChan h a =
     (if a < length h
      then (if closed (h ! a) then Inl CloseOfClosedChannel
            else Inr (h[a := (h ! a)\<lparr>closed := True\<rparr>]))
      else Inl CloseOfNilChannel)"

text \<open>
  \<open>select { case ch <- x: ... default: ... }\<close>: the send goes through when the buffer has
  room (no receiver is taken to be parked on the channel); the flag tells which branch
  ran. A send on a nil channel is never ready.
\<close>

definition trySend :: "heap \<Rightarrow> nat \<Rightarrow> bytes \<Rightarrow> panic + (bool \<times> heap)" where
  "trySend h a x =
     (if a < length h
      then (if closed (h ! a) then Inl SendOnClosedChannel
            else if length (buf (h ! a)) < cap (h ! a)
            then Inr (True, h[a := (h ! a)\<lparr>buf := buf (h ! a) @ [x]\<rparr>])
            else Inr (False, h))
      else Inr (False, h))"

text \<open>
  \<open>select { case v := <-ch: ... default: ... }\<close>: the oldest buffered item when there is
  one; the zero value at once when the channel is closed and drained; otherwise the
  default branch.
\<close>

datatype recv = Received bytes | ClosedEmpty | NotReady

definition tryRecv :: "heap \<Rightarrow> nat \<Rightarrow> recv \<times> heap" where
  "tryRecv h a =
     (if a < length h
      then (case buf (h ! a) of
              [] \<Rightarrow> (if closed (h ! a) then (ClosedEmpty, h) else (NotReady, h))
            | x # xs \<Rightarrow> (Received x, h[a := (h ! a)\<lparr>buf := xs\<rparr>]))
      else (NotReady, h))"

section \<open>The source capturer\<close>

record CameraConfig =
  cam_ID :: string
  cam_Enabled :: bool
  cam_AudioEnabled :: bool

text \<open>
  The fields of \<open>FFmpegCapturer\<close> that the operations below read or write. \<open>cmd\<close> is
  whether the capturer holds a live capture process; \<open>spawned\<close> counts the capture
  processes it has launched. The two subscriber tables are Go maps from subscriber id to
  channel; they are association lists with the list order standing for the (unspecified)
  iteration order of \<open>range\<close>.
\<close>

record Capturer =
  config :: CameraConfig
  cmd :: bool
  spawned :: nat
  running :: bool
  lastFrame :: "bytes option"
  frameSubscribers :: subs
  audioSubscribers :: subs
  chans :: heap

text \<open>
  The errors the operations return are \<open>fmt.Errorf\<close> values told apart by their message.
  The model names them by kind: \<open>AlreadyActiveError\<close> for "camera ... is already streaming"
  and "HLS output already running"; \<open>NotFoundError\<close> for "camera does not exist" and
  "failed to get capturer"; \<open>NotActiveError\<close> for "capturer not running";
  \<open>SpawnFailure\<close> for a pipe, a directory or a process that could not be created;
  \<open>TimeoutError\<close> for "timed out getting a frame"; \<open>AlreadyExistsError\<close> for "capturer ...
  already exists".
\<close>

datatype error =
  AlreadyActiveError
  | NotFoundError
  | NotActiveError
  | SpawnFailure
  | TimeoutError
  | AlreadyExistsError

definition NewAVCapturer :: "CameraConfig \<Rightarrow> Capturer" where
  "NewAVCapturer cfg =
     \<lparr>config = cfg, cmd = False, spawned = 0, running = False, lastFrame = None,
      frameSubscribers = [], audioSubscribers = [], chans = []\<rparr>"

definition IsRunning :: "Capturer \<Rightarrow> bool" where
  "IsRunning c = running c"

definition HasAudio :: "Capturer \<Rightarrow> bool" where
  "HasAudio c = cam_AudioEnabled (config c)"

text \<open>
  \<open>Start\<close>: nothing to do when already running; otherwise \<open>startCapture\<close> creates the
  pipes and launches the capture process, and either can fail. What the operating system
  does is an input.
\<close>

datatype spawn_env = SpawnOk | PipeFails | ExecFails

definition Start :: "Capturer \<Rightarrow> spawn_env \<Rightarrow> (error + unit) \<times> Capturer" where
  "Start c env =
     (if running c then (Inr (), c)
      else (case env of
              SpawnOk \<Rightarrow> (Inr (), c\<lparr>cmd := True, spawned := spawned c + 1, running := True\<rparr>)
            | PipeFails \<Rightarrow> (Inl SpawnFailure, c)
            | ExecFails \<Rightarrow> (Inl SpawnFailure, c)))"

text \<open>\<open>stopCapture\<close>: interrupt, then kill and reap the process; close the pipes.\<close>

definition stopCapture :: "Capturer \<Rightarrow> Capturer" where
  "stopCapture c = c\<lparr>cmd := False\<rparr>"

text \<open>
  \<open>for id, ch := range table { close(ch); delete(table, id) }\<close>, run under the table's
  write lock.
\<close>

function closeAll :: "heap \<Rightarrow> subs \<Rightarrow> panic + (heap \<times> subs)" where
  "closeAll h [] = Inr (h, [])"
| "closeAll h ((sid, a) # rest) =
     (case closeChan h a of
        Inl p \<Rightarrow> Inl p
      | Inr h' \<Rightarrow> closeAll h' (AList.delete sid rest))"
  by pat_completeness auto
termination
  by (relation "measure (\<lambda>(h, tbl). length tbl)") (auto simp: less_Suc_eq_le length_delete_le)

definition stopCloseFrames :: "Capturer \<Rightarrow> panic + Capturer" where
  "stopCloseFrames c =
     (case closeAll (chans c) (frameSubscribers c) of
        Inl p \<Rightarrow> Inl p
      | Inr (h, tbl) \<Rightarrow> Inr (c\<lparr>chans := h, frameSubscribers := tbl\<rparr>))"

definition stopCloseAudio :: "Capturer \<Rightarrow> panic + Capturer" where
  "stopCloseAudio c =
     (case closeAll (chans c) (audioSubscribers c) of
        Inl p \<Rightarrow> Inl p
      | Inr (h, tbl) \<Rightarrow> Inr (c\<lparr>chans := h, audioSubscribers := tbl\<rparr>))"

definition stopFinish :: "Capturer \<Rightarrow> Capturer" where
  "stopFinish c = c\<lparr>running := False\<rparr>"

text \<open>
  \<open>Stop\<close>: nothing to do when not running; otherwise cancel, stop the process, close and
  remove every frame subscriber, then every audio subscriber, then clear the running
  flag. The returned \<open>error\<close> is always nil, so the result is the new state or a panic.
\<close>

definition Stop :: "Capturer \<Rightarrow> panic + Capturer" where
  "Stop c =
     (if \<not> running c then Inr c
      else (case stopCloseFrames (stopCapture c) of
              Inl p \<Rightarrow> Inl p
            | Inr c1 \<Rightarrow> (case stopCloseAudio c1 of
                          Inl p \<Rightarrow> Inl p
                        | Inr c2 \<Rightarrow> Inr (stopFinish c2))))"

text \<open>Subscribing makes a channel (30 frames, 100 audio blocks) and stores it under the id.\<close>

definition SubscribeFrames :: "Capturer \<Rightarrow> string \<Rightarrow> nat \<times> Capturer" where
  "SubscribeFrames c sid =
     (let (ch, h) = makeChan (chans c) 30
      in (ch, c\<lparr>chans := h, frameSubscribers := AList.update sid ch (frameSubscribers c)\<rparr>))"

definition SubscribeAudio :: "Capturer \<Rightarrow> string \<Rightarrow> nat \<times> Capturer" where
  "SubscribeAudio c sid =
     (let (ch, h) = makeChan (chans c) 100
      in (ch, c\<lparr>chans := h, audioSubscribers := AList.update sid ch (audioSubscribers c)\<rparr>))"

text \<open>Unsubscribing closes and removes the channel stored under the id, if there is one.\<close>

definition UnsubscribeFrames :: "Capturer \<Rightarrow> string \<Rightarrow> panic + Capturer" where
  "UnsubscribeFrames c sid =
     (case map_of (frameSubscribers c) sid of
        None \<Rightarrow> Inr c
      | Some ch \<Rightarrow>
          (case closeChan (chans c) ch of
             Inl p \<Rightarrow> Inl p
           | Inr h \<Rightarrow> Inr (c\<lparr>chans := h,
                               frameSubscribers := AList.delete sid (frameSubscribers c)\<rparr>)))"

definition UnsubscribeAudio :: "Capturer \<Rightarrow> string \<Rightarrow> panic + Capturer" where
  "UnsubscribeAudio c sid =
     (case map_of (audioSubscribers c) sid of
        None \<Rightarrow> Inr c
      | Some ch \<Rightarrow>
          (case closeChan (chans c) ch of
             Inl p \<Rightarrow> Inl p
           | Inr h \<Rightarrow> Inr (c\<lparr>chans := h,
                               audioSubscribers := AList.delete sid (audioSubscribers c)\<rparr>)))"

subsection \<open>Broadcast\<close>

text \<open>
  What \<open>broadcastFrame\<close> does for one subscriber: try to send; when the buffer is full,
  take one item out if one is there, then try once more and let the frame go if that
  fails too.
\<close>

definition sendFrame :: "heap \<Rightarrow> nat \<Rightarrow> bytes \<Rightarrow> panic + heap" where
  "sendFrame h ch frame =
     (case trySend h ch frame of
        Inl p \<Rightarrow> Inl p
      | Inr (True, h1) \<Rightarrow> Inr h1
      | Inr (False, h1) \<Rightarrow>
          (let (r, h2) = tryRecv h1 ch
           in (case trySend h2 ch frame of
                 Inl p \<Rightarrow> Inl p
               | Inr (sent, h3) \<Rightarrow> Inr h3)))"

text \<open>What \<open>broadcastAudio\<close> does for one subscriber: try to send, and that is all.\<close>

definition sendAudio :: "heap \<Rightarrow> nat \<Rightarrow> bytes \<Rightarrow> panic + heap" where
  "sendAudio h ch audio =
     (case trySend h ch audio of
        Inl p \<Rightarrow> Inl p
      | Inr (sent, h1) \<Rightarrow> Inr h1)"

fun broadcastTo :: "(heap \<Rightarrow> nat \<Rightarrow> bytes \<Rightarrow> panic + heap) \<Rightarrow> heap \<Rightarrow> subs \<Rightarrow> bytes
    \<Rightarrow> panic + heap" where
  "broadcastTo send h [] x = Inr h"
| "broadcastTo send h ((sid, ch) # rest) x =
     (case send h ch x of
        Inl p \<Rightarrow> Inl p
      | Inr h' \<Rightarrow> broadcastTo send h' rest x)"

definition broadcastFrame :: "Capturer \<Rightarrow> bytes \<Rightarrow> panic + Capturer" where
  "broadcastFrame c frame =
     (case broadcastTo sendFrame (chans c) (frameSubscribers c) frame of
        Inl p \<Rightarrow> Inl p
      | Inr h \<Rightarrow> Inr (c\<lparr>chans := h\<rparr>))"

definition broadcastAudio :: "Capturer \<Rightarrow> bytes \<Rightarrow> panic + Capturer" where
  "broadcastAudio c audio =
     (case broadcastTo sendAudio (chans c) (audioSubscribers c) audio of
        Inl p \<Rightarrow> Inl p
      | Inr h \<Rightarrow> Inr (c\<lparr>chans := h\<rparr>))"

text \<open>
  The body of the demux loop for one complete frame: store it as the last frame, then
  broadcast it.
\<close>

definition publishFrame :: "Capturer \<Rightarrow> bytes \<Rightarrow> panic + Capturer" where
  "publishFrame c frame = broadcastFrame (c\<lparr>lastFrame := Some frame\<rparr>) frame"

subsection \<open>Concurrent use of one capturer\<close>

text \<open>
  Every access to a subscriber table happens inside one critical section of that table's
  lock, so a run of several goroutines is a sequence of these atomic steps. \<open>Stop\<close> is not
  one step: between its check of the running flag and each of its two closing loops other
  goroutines may run, and two calls of \<open>Stop\<close> may overlap; its parts are steps of their
  own here. A consumer taking the next item from its channel is a step as well. A call
  of \<open>GetFrame\<close> by another goroutine is a subscribe, a receive and an unsubscribe.
\<close>

datatype action =
  DoSubscribeFrames string
  | DoUnsubscribeFrames string
  | DoSubscribeAudio string
  | DoUnsubscribeAudio string
  | DoBroadcastFrame bytes
  | DoBroadcastAudio bytes
  | DoStart spawn_env
  | DoStopCapture
  | DoStopCloseFrames
  | DoStopCloseAudio
  | DoStopFinish
  | DoStop
  | DoReceive nat

fun step :: "Capturer \<Rightarrow> action \<Rightarrow> panic + Capturer" where
  "step c (DoSubscribeFrames sid) = Inr (snd (SubscribeFrames c sid))"
| "step c (DoUnsubscribeFrames sid) = UnsubscribeFrames c sid"
| "step c (DoSubscribeAudio sid) = Inr (snd (SubscribeAudio c sid))"
| "step c (DoUnsubscribeAudio sid) = UnsubscribeAudio c sid"
| "step c (DoBroadcastFrame frame) = publishFrame c frame"
| "step c (DoBroadcastAudio audio) = broadcastAudio c audio"
| "step c (DoStart env) = Inr (snd (Start c env))"
| "step c DoStopCapture = Inr (stopCapture c)"
| "step c DoStopCloseFrames = stopCloseFrames c"
| "step c DoStopCloseAudio = stopCloseAudio c"
| "step c DoStopFinish = Inr (stopFinish c)"
| "step c DoStop = Stop c"
| "step c (DoReceive ch) = Inr (c\<lparr>chans := snd (tryRecv (chans c) ch)\<rparr>)"

fun run :: "Capturer \<Rightarrow> action list \<Rightarrow> panic + Capturer" where
  "run c [] = Inr c"
| "run c (a # as) = (case step c a of Inl p \<Rightarrow> Inl p | Inr c' \<Rightarrow> run c' as)"

subsection \<open>\<open>GetFrame\<close>\<close>

text \<open>\<open>fmt.Sprintf("%d", n)\<close> for the subscriber id of a snapshot.\<close>

fun decimal :: "nat \<Rightarrow> string" where
  "decimal n =
     (if n < 10 then [''0123456789'' ! n]
      else decimal (n div 10) @ [''0123456789'' ! (n mod 10)])"

declare decimal.simps [simp del]

definition itoa :: "int \<Rightarrow> string" where
  "itoa n = (if n < 0 then CHR ''-'' # decimal (nat (- n)) else decimal (nat n))"

text \<open>
  \<open>GetFrame\<close> holds no lock from one statement to the next: it reads the running flag,
  reads the cached frame, subscribes, waits in a \<open>select\<close> on its channel and a
  three-second timer, and unsubscribes on the way out (the \<open>defer\<close>). Other goroutines
  run in between, and what they do is an input of the call: their steps before the
  cached frame is read, before the subscription is made, while the \<open>select\<close> waits and
  before the deferred unsubscribe, and whether the \<open>select\<close> takes the timer when the
  timer and the channel are both ready.
\<close>

record schedule =
  beforeCache :: "action list"
  beforeSubscribe :: "action list"
  duringWait :: "action list"
  timerTaken :: bool
  beforeUnsubscribe :: "action list"

text \<open>
  The \<open>select\<close>. \<open>case frame := <-ch\<close> takes what the channel gives without looking at
  the second result of the receive, so for a closed and drained channel it takes the nil
  slice (\<open>None\<close> here), and \<open>GetFrame\<close> returns it with a nil error. When the channel has
  nothing to give, only the timer can end the wait.
\<close>

definition awaitFrame :: "heap \<Rightarrow> nat \<Rightarrow> bool \<Rightarrow> (error + bytes option) \<times> heap" where
  "awaitFrame h ch timer =
     (case tryRecv h ch of
        (NotReady, h') \<Rightarrow> (Inl TimeoutError, h)
      | (Received frame, h') \<Rightarrow> if timer then (Inl TimeoutError, h) else (Inr (Some frame), h')
      | (ClosedEmpty, h') \<Rightarrow> if timer then (Inl TimeoutError, h) else (Inr None, h'))"

text \<open>
  \<open>now\<close> is the clock reading that names the subscription. The result is a panic of one
  of the steps, or what \<open>GetFrame\<close> returns (an error, or a frame that may be nil) with
  the state the capturer is left in.
\<close>

definition GetFrame :: "Capturer \<Rightarrow> int \<Rightarrow> schedule
    \<Rightarrow> panic + ((error + bytes option) \<times> Capturer)" where
  "GetFrame c now sch =
     (if \<not> running c then Inr (Inl NotActiveError, c)
      else (case run c (beforeCache sch) of
              Inl p \<Rightarrow> Inl p
            | Inr c0 \<Rightarrow>
                (case lastFrame c0 of
                   Some frame \<Rightarrow> Inr (Inr (Some frame), c0)
                 | None \<Rightarrow>
                     (case run c0 (beforeSubscribe sch) of
                        Inl p \<Rightarrow> Inl p
                      | Inr c1 \<Rightarrow>
                          (let subID = ''snapshot_'' @ itoa now;
                               (ch, c2) = SubscribeFrames c1 subID
                           in (case run c2 (duringWait sch) of
                                 Inl p \<Rightarrow> Inl p
                               | Inr c3 \<Rightarrow>
                                   (let (result, h) = awaitFrame (chans c3) ch (timerTaken sch)
                                    in (case run (c3\<lparr>chans := h\<rparr>) (beforeUnsubscribe sch) of
                                          Inl p \<Rightarrow> Inl p
                                        | Inr c4 \<Rightarrow>
                                            (case UnsubscribeFrames c4 subID of
                                               Inl p \<Rightarrow> Inl p
                                             | Inr c5 \<Rightarrow> Inr (result, c5))))))))))"

text \<open>
  The state the tables and the channels are in between steps: ids are keys, no channel
  is stored twice, and every stored channel exists and is open.
\<close>

definition tables_ok :: "Capturer \<Rightarrow> bool" where
  "tables_ok c \<longleftrightarrow>
     distinct (map fst (frameSubscribers c)) \<and> distinct (map fst (audioSubscribers c))
     \<and> distinct (map snd (frameSubscribers c) @ map snd (audioSubscribers c))
     \<and> list_all (\<lambda>ch. ch < length (chans c) \<and> \<not> closed (chans c ! ch))
          (map snd (frameSubscribers c) @ map snd (audioSubscribers c))"

section \<open>Sink pipelines and their managers\<close>

text \<open>
  The push-stream manager (\<open>rtmp.Manager\<close>) and the segmented-file manager
  (\<open>HLSOutputManager\<close>) each keep a table of the cameras enabled in the configuration and
  a table of their pipelines by camera id, and look capturers up in the capture manager.
  Each pipeline wraps one external transcoding process. The world below holds the
  capture manager's table, the two managers' tables and the transcoding processes the
  operating system is running for them, by process id.
\<close>

record Streamer =
  s_cameraID :: string
  s_rtmpURL :: string
  s_cmd :: "nat option"
  s_running :: bool

record HLSOutput =
  h_capturer :: string
  h_cmd :: "nat option"
  h_running :: bool

record World =
  capturers :: "(string \<times> Capturer) list"
  procs :: "nat list"
  nextPid :: nat
  cameras :: "(string \<times> CameraConfig) list"
  streamers :: "(string \<times> Streamer) list"
  frameFeeds :: "string list"
  hls_cameras :: "(string \<times> CameraConfig) list"
  outputs :: "(string \<times> HLSOutput) list"

text \<open>Both constructors keep the enabled cameras, a later entry replacing an earlier one.\<close>

definition enabledCameras :: "CameraConfig list \<Rightarrow> (string \<times> CameraConfig) list" where
  "enabledCameras cams =
     foldl (\<lambda>tbl cam. if cam_Enabled cam then AList.update (cam_ID cam) cam tbl else tbl) [] cams"

text \<open>\<open>capture.Manager.AddCapturer\<close>: a second capturer under the same id is refused.\<close>

definition AddCapturer :: "(string \<times> Capturer) list \<Rightarrow> CameraConfig
    \<Rightarrow> (error + unit) \<times> (string \<times> Capturer) list" where
  "AddCapturer caps cfg =
     (case map_of caps (cam_ID cfg) of
        Some c \<Rightarrow> (Inl AlreadyExistsError, caps)
      | None \<Rightarrow> (Inr (), AList.update (cam_ID cfg) (NewAVCapturer cfg) caps))"

definition GetCapturer :: "(string \<times> Capturer) list \<Rightarrow> string \<Rightarrow> error + Capturer" where
  "GetCapturer caps cid =
     (case map_of caps cid of None \<Rightarrow> Inl NotFoundError | Some c \<Rightarrow> Inr c)"

text \<open>
  A world right after start-up: the capture manager's table as it stands, both managers
  built from the configured cameras, and no transcoding process yet.
\<close>

definition NewWorld :: "(string \<times> Capturer) list \<Rightarrow> CameraConfig list \<Rightarrow> World" where
  "NewWorld caps cams =
     \<lparr>capturers = caps, procs = [], nextPid = 0,
      cameras = enabledCameras cams, streamers = [], frameFeeds = [],
      hls_cameras = enabledCameras cams, outputs = []\<rparr>"

text \<open>\<open>exec.Cmd.Start\<close> succeeding: one more live process.\<close>

definition spawn :: "World \<Rightarrow> nat \<times> World" where
  "spawn w = (nextPid w, w\<lparr>procs := procs w @ [nextPid w], nextPid := nextPid w + 1\<rparr>)"

definition kill :: "World \<Rightarrow> nat option \<Rightarrow> World" where
  "kill w p = (case p of None \<Rightarrow> w | Some pid \<Rightarrow> w\<lparr>procs := removeAll pid (procs w)\<rparr>)"

subsection \<open>Push-stream sink\<close>

definition NewStreamer :: "string \<Rightarrow> string \<Rightarrow> Streamer" where
  "NewStreamer cameraID rtmpURL =
     \<lparr>s_cameraID = cameraID, s_rtmpURL = rtmpURL, s_cmd = None, s_running = False\<rparr>"

text \<open>
  \<open>Streamer.Start\<close>: nothing to do when running; otherwise two pipes and the process,
  each of which can fail.
\<close>

definition Streamer_Start :: "Streamer \<Rightarrow> World \<Rightarrow> spawn_env \<Rightarrow> (error + unit) \<times> Streamer \<times> World" where
  "Streamer_Start s w env =
     (if s_running s then (Inr (), s, w)
      else (case env of
              PipeFails \<Rightarrow> (Inl SpawnFailure, s, w)
            | ExecFails \<Rightarrow> (Inl SpawnFailure, s, w)
            | SpawnOk \<Rightarrow>
                (let (pid, w') = spawn w
                 in (Inr (), s\<lparr>s_cmd := Some pid, s_running := True\<rparr>, w'))))"

definition Streamer_Stop :: "Streamer \<Rightarrow> World \<Rightarrow> Streamer \<times> World" where
  "Streamer_Stop s w =
     (if \<not> s_running s then (s, w)
      else (s\<lparr>s_running := False\<rparr>, kill w (s_cmd s)))"

text \<open>
  \<open>Manager.StartStream\<close>. The checks come in the source's order: a running streamer for
  the camera, the camera's configuration, the capturer, the capturer's running flag. Then
  the streamer is started, the capturer's frames (and audio, when it has audio) are
  subscribed to, and the streamer is stored.
\<close>

definition StartStream :: "World \<Rightarrow> string \<Rightarrow> string \<Rightarrow> spawn_env \<Rightarrow> (error + unit) \<times> World" where
  "StartStream w cameraID rtmpURL env =
     (if (case map_of (streamers w) cameraID of Some s \<Rightarrow> s_running s | None \<Rightarrow> False)
      then (Inl AlreadyActiveError, w)
      else (case map_of (cameras w) cameraID of
              None \<Rightarrow> (Inl NotFoundError, w)
            | Some camConfig \<Rightarrow>
                (case GetCapturer (capturers w) cameraID of
                   Inl e \<Rightarrow> (Inl NotFoundError, w)
                 | Inr capturer \<Rightarrow>
                     (if \<not> IsRunning capturer then (Inl NotActiveError, w)
                      else (case Streamer_Start (NewStreamer cameraID rtmpURL) w env of
                              (Inl e, s, w1) \<Rightarrow> (Inl e, w)
                            | (Inr u, s, w1) \<Rightarrow>
                                (let c1 = snd (SubscribeFrames capturer (''rtmp_video_'' @ cameraID));
                                     c2 = (if HasAudio c1
                                           then snd (SubscribeAudio c1 (''rtmp_audio_'' @ cameraID))
                                           else c1)
                                 in (Inr (),
                                     w1\<lparr>capturers := AList.update cameraID c2 (capturers w1),
                                        frameFeeds := List.insert cameraID (frameFeeds w1),
                                        streamers := AList.update cameraID s (streamers w1)\<rparr>)))))))"

definition StopStream :: "World \<Rightarrow> string \<Rightarrow> World" where
  "StopStream w cameraID =
     (let w1 = w\<lparr>frameFeeds := removeAll cameraID (frameFeeds w)\<rparr>
      in (case map_of (streamers w1) cameraID of
            None \<Rightarrow> w1
          | Some s \<Rightarrow>
              (let (s', w2) = Streamer_Stop s w1
               in w2\<lparr>streamers := AList.delete cameraID (streamers w2)\<rparr>)))"

text \<open>
  The exit watcher of a streamer: when the transcoding process exits on its own, the
  streamer is marked not running.
\<close>

definition StreamerExited :: "World \<Rightarrow> string \<Rightarrow> World" where
  "StreamerExited w cameraID =
     (case map_of (streamers w) cameraID of
        None \<Rightarrow> w
      | Some s \<Rightarrow>
          (kill w (s_cmd s))\<lparr>streamers :=
             AList.update cameraID (s\<lparr>s_running := False\<rparr>) (streamers w)\<rparr>)"

subsection \<open>Segmented-file sink\<close>

datatype hls_env = HlsOk | HlsMkdirFails | HlsPipeFails | HlsExecFails

definition NewHLSOutput :: "string \<Rightarrow> HLSOutput" where
  "NewHLSOutput cameraID = \<lparr>h_capturer = cameraID, h_cmd = None, h_running = False\<rparr>"

text \<open>
  \<open>HLSOutput.Start\<close>: nothing to do when running; otherwise the output directory, two
  pipes and the process. The feeder goroutines it launches subscribe on their own later.
\<close>

definition HLSOutput_Start :: "HLSOutput \<Rightarrow> World \<Rightarrow> hls_env \<Rightarrow> (error + unit) \<times> HLSOutput \<times> World" where
  "HLSOutput_Start h w env =
     (if h_running h then (Inr (), h, w)
      else (case env of
              HlsMkdirFails \<Rightarrow> (Inl SpawnFailure, h, w)
            | HlsPipeFails \<Rightarrow> (Inl SpawnFailure, h, w)
            | HlsExecFails \<Rightarrow> (Inl SpawnFailure, h, w)
            | HlsOk \<Rightarrow>
                (let (pid, w') = spawn w
                 in (Inr (), h\<lparr>h_cmd := Some pid, h_running := True\<rparr>, w'))))"

text \<open>
  \<open>HLSOutputManager.StartOutput\<close>. The checks, in the source's order: a running output
  for the camera, the camera's configuration, the capturer. Then the output is started
  and stored.
\<close>

definition StartOutput :: "World \<Rightarrow> string \<Rightarrow> hls_env \<Rightarrow> (error + unit) \<times> World" where
  "StartOutput w cameraID env =
     (if (case map_of (outputs w) cameraID of Some h \<Rightarrow> h_running h | None \<Rightarrow> False)
      then (Inl AlreadyActiveError, w)
      else (case map_of (hls_cameras w) cameraID of
              None \<Rightarrow> (Inl NotFoundError, w)
            | Some camCfg \<Rightarrow>
                (case GetCapturer (capturers w) cameraID of
                   Inl e \<Rightarrow> (Inl NotFoundError, w)
                 | Inr capturer \<Rightarrow>
                     (case HLSOutput_Start (NewHLSOutput cameraID) w env of
                        (Inl e, h, w1) \<Rightarrow> (Inl e, w)
                      | (Inr u, h, w1) \<Rightarrow>
                          (Inr (), w1\<lparr>outputs := AList.update cameraID h (outputs w1)\<rparr>)))))"

subsection \<open>A world in use\<close>

text \<open>
  What can happen to a world after start-up, one call or event at a time: calls of the
  two managers, the exit of a streamer's process, and any atomic step of a capturer (a
  step that panics ends the program, so it leaves nothing changed here).
\<close>

datatype world_op =
  OpStartStream string string spawn_env
  | OpStopStream string
  | OpStreamerExited string
  | OpStartOutput string hls_env
  | OpCapturer string action

fun world_step :: "World \<Rightarrow> world_op \<Rightarrow> World" where
  "world_step w (OpStartStream cameraID rtmpURL env) = snd (StartStream w cameraID rtmpURL env)"
| "world_step w (OpStopStream cameraID) = StopStream w cameraID"
| "world_step w (OpStreamerExited cameraID) = StreamerExited w cameraID"
| "world_step w (OpStartOutput cameraID env) = snd (StartOutput w cameraID env)"
| "world_step w (OpCapturer cameraID a) =
     (case map_of (capturers w) cameraID of
        None \<Rightarrow> w
      | Some c \<Rightarrow>
          (case step c a of
             Inl p \<Rightarrow> w
           | Inr c' \<Rightarrow> w\<lparr>capturers := AList.update cameraID c' (capturers w)\<rparr>))"

definition world_run :: "World \<Rightarrow> world_op list \<Rightarrow> World" where
  "world_run w ops = foldl world_step w ops"

text \<open>Every streamer belongs to a configured camera.\<close>

definition streamers_registered :: "World \<Rightarrow> bool" where
  "streamers_registered w \<longleftrightarrow> list_all (\<lambda>cid. map_of (cameras w) cid \<noteq> None) (map fst (streamers w))"

section \<open>Example inputs\<close>

text \<open>Concrete cameras, frames, audio blocks and capturer states for the statements below.\<close>

definition cam1 :: CameraConfig where
  "cam1 = \<lparr>cam_ID = ''cam1'', cam_Enabled = True, cam_AudioEnabled = True\<rparr>"

definition cam2 :: CameraConfig where
  "cam2 = \<lparr>cam_ID = ''cam2'', cam_Enabled = False, cam_AudioEnabled = False\<rparr>"

definition oldFrame :: bytes where
  "oldFrame = [0xFF, 0xD8, 0x01, 0xFF, 0xD9]"

definition newFrame :: bytes where
  "newFrame = [0xFF, 0xD8, 0x02, 0xFF, 0xD9]"

definition oldAudio :: bytes where
  "oldAudio = replicate 1920 0x01"

definition newAudio :: bytes where
  "newAudio = replicate 1920 0x02"

text \<open>
  A running capturer with one viewer subscribed to frames and to audio, after \<open>k\<close> frames
  and \<open>m\<close> audio blocks have been published and none has been consumed.
\<close>

definition queues :: "nat \<Rightarrow> nat \<Rightarrow> Capturer" where
  "queues k m =
     \<lparr>config = cam1, cmd = True, spawned = 1, running = True,
      lastFrame = (if k = 0 then None else Some oldFrame),
      frameSubscribers = [(''viewer'', 0)], audioSubscribers = [(''viewer'', 1)],
      chans = [\<lparr>cap = 30, buf = replicate k oldFrame, closed = False\<rparr>,
               \<lparr>cap = 100, buf = replicate m oldAudio, closed = False\<rparr>]\<rparr>"

text \<open>
  A capturer that was never started, with one viewer subscribed to frames and to audio.
\<close>

definition idleViewer :: Capturer where
  "idleViewer =
     \<lparr>config = cam1, cmd = False, spawned = 0, running = False, lastFrame = None,
      frameSubscribers = [(''viewer'', 0)], audioSubscribers = [(''viewer'', 1)],
      chans = [\<lparr>cap = 30, buf = [], closed = False\<rparr>,
               \<lparr>cap = 100, buf = [], closed = False\<rparr>]\<rparr>"

text \<open>
  Schedules of a call of \<open>GetFrame\<close>: no other goroutine does anything; the demux loop
  publishes a frame while the call waits; the capturer is stopped while the call waits.
\<close>

definition alone :: schedule where
  "alone = \<lparr>beforeCache = [], beforeSubscribe = [], duringWait = [], timerTaken = False,
            beforeUnsubscribe = []\<rparr>"

definition frameInTime :: "bytes \<Rightarrow> schedule" where
  "frameInTime f = \<lparr>beforeCache = [], beforeSubscribe = [], duringWait = [DoBroadcastFrame f],
                    timerTaken = False, beforeUnsubscribe = []\<rparr>"

definition stoppedMeanwhile :: schedule where
  "stoppedMeanwhile = \<lparr>beforeCache = [], beforeSubscribe = [], duringWait = [DoStop],
                        timerTaken = False, beforeUnsubscribe = []\<rparr>"

text \<open>The clock reading of the example calls, in nanoseconds.\<close>

definition clock :: int where
  "clock = 1700000000000000000"

section \<open>Properties of the viewer reference count\<close>

lemma sub_calls_word:
  "subscribers (sub_calls cs f) = subscribers f + word_of_nat (adds cs) - word_of_nat (removes cs)"
proof (induction cs arbitrary: f)
  case Nil
  show ?case by (simp add: sub_calls_def adds_def removes_def)
next
  case (Cons c cs)
  have step: "sub_calls (c # cs) f = sub_calls cs (sub_step f c)"
    by (simp add: sub_calls_def)
  show ?case
  proof (cases c)
    case Add
    then show ?thesis
      using Cons.IH [of "sub_step f c"] step
      by (simp add: adds_def removes_def AddSubscriber_def)
  next
    case Remove
    then show ?thesis
      using Cons.IH [of "sub_step f c"] step
      by (simp add: adds_def removes_def RemoveSubscriber_def Let_def)
  qed
qed

lemma adds_removes_length: "adds cs + removes cs = length cs"
proof (induction cs)
  case Nil
  show ?case by (simp add: adds_def removes_def)
next
  case (Cons c cs)
  then show ?case by (cases c) (simp_all add: adds_def removes_def)
qed

lemma sint_diff_small:
  assumes "a + b < 2 ^ 63"
  shows "sint (word_of_nat a - word_of_nat b :: 64 word) = int a - int b"
proof -
  have eq: "(word_of_nat a - word_of_nat b :: 64 word) = word_of_int (int a - int b)"
    by simp
  have lo: "- (2 ^ 63) \<le> int a - int b" and hi: "int a - int b < 2 ^ 63"
    using assms by (simp_all add: nat_less_numeral_power_cancel_iff flip: of_nat_less_iff)
  have "sint (word_of_int (int a - int b) :: 64 word) = signed_take_bit 63 (int a - int b)"
    by (subst sint_sbintrunc') simp
  also have "\<dots> = int a - int b"
    by (rule signed_take_bit_int_eq_self) (use lo hi in simp_all)
  finally show ?thesis
    unfolding eq .
qed

lemma count_after_calls:
  assumes "length cs < 2 ^ 63"
  shows "GetSubscriberCount (sub_calls cs (NewRTPForwarder cam a)) = int (adds cs) - int (removes cs)"
proof -
  have "adds cs + removes cs < 2 ^ 63"
    using assms by (simp add: adds_removes_length)
  then have "sint (word_of_nat (adds cs) - word_of_nat (removes cs) :: 64 word)
               = int (adds cs) - int (removes cs)"
    by (rule sint_diff_small)
  then show ?thesis
    by (simp add: GetSubscriberCount_def sub_calls_word NewRTPForwarder_def)
qed

text \<open>
  Claim C3, as the code has it. Starting from a fresh forwarder, after every prefix of
  a sequence of fewer than \<open>2 ^ 63\<close> calls the count is the number of adds minus the number of
  removes so far; \<open>RemoveSubscriber\<close> returns the count it has just stored; and the count is
  non-negative whenever the removes so far do not outnumber the adds. Nothing in
  \<open>RemoveSubscriber\<close> stops the count at zero.
\<close>

theorem subscriber_count_tracks_calls:
  assumes "length cs < 2 ^ 63" and "n \<le> length cs"
  shows "GetSubscriberCount (sub_calls (take n cs) (NewRTPForwarder cam a))
           = int (adds (take n cs)) - int (removes (take n cs))
       \<and> (removes (take n cs) \<le> adds (take n cs)
            \<longrightarrow> 0 \<le> GetSubscriberCount (sub_calls (take n cs) (NewRTPForwarder cam a)))
       \<and> fst (RemoveSubscriber (sub_calls (take n cs) (NewRTPForwarder cam a)))
           = GetSubscriberCount (snd (RemoveSubscriber (sub_calls (take n cs) (NewRTPForwarder cam a))))"
proof -
  have len: "length (take n cs) < 2 ^ 63"
    using assms by simp
  have count: "GetSubscriberCount (sub_calls (take n cs) (NewRTPForwarder cam a))
                 = int (adds (take n cs)) - int (removes (take n cs))"
    by (rule count_after_calls [OF len])
  have ret: "fst (RemoveSubscriber g) = GetSubscriberCount (snd (RemoveSubscriber g))" for g
    by (simp add: RemoveSubscriber_def GetSubscriberCount_def Let_def)
  from count ret show ?thesis
    by simp
qed

theorem subscriber_count_tracks_calls_witness:
  "length [Add, Add, Remove, Remove] < (2::nat) ^ 63
   \<and> GetSubscriberCount (NewRTPForwarder ''cam1'' True) = 0
   \<and> map (\<lambda>n. GetSubscriberCount (sub_calls (take n [Add, Add, Remove, Remove])
                                        (NewRTPForwarder ''cam1'' True))) [1, 2, 3, 4]
       = [1, 2, 1, 0]
   \<and> sub_trace (NewRTPForwarder ''cam1'' True) [Add, Add, Remove, Remove] = [1, 2, 1, 0]
   \<and> fst (RemoveSubscriber (sub_calls (take 2 [Add, Add, Remove, Remove])
                                        (NewRTPForwarder ''cam1'' True))) = 1"
proof -
  let ?cs = "[Add, Add, Remove, Remove]"
  have len: "length ?cs < (2::nat) ^ 63"
    by simp
  have tr: "sub_trace (NewRTPForwarder ''cam1'' True) ?cs = [1, 2, 1, 0]"
    by (simp add: NewRTPForwarder_def AddSubscriber_def RemoveSubscriber_def
        GetSubscriberCount_def Let_def)
  show ?thesis
    using len tr
      subscriber_count_tracks_calls [OF len, of 0 "''cam1''" True]
      subscriber_count_tracks_calls [OF len, of 1 "''cam1''" True]
      subscriber_count_tracks_calls [OF len, of 2 "''cam1''" True]
      subscriber_count_tracks_calls [OF len, of 3 "''cam1''" True]
      subscriber_count_tracks_calls [OF len, of 4 "''cam1''" True]
    by (simp add: adds_def removes_def sub_calls_def)
qed

text \<open>
  Claim C3 as stated says the count never becomes negative for every call sequence. A
  single \<open>RemoveSubscriber\<close> on a fresh forwarder returns \<open>-1\<close> and leaves the count at \<open>-1\<close>.
\<close>

theorem subscriber_count_negative_counterexample:
  "fst (RemoveSubscriber (NewRTPForwarder ''cam1'' True)) = - 1
   \<and> GetSubscriberCount (sub_calls [Remove] (NewRTPForwarder ''cam1'' True)) < 0"
  by (simp add: NewRTPForwarder_def RemoveSubscriber_def GetSubscriberCount_def
      sub_calls_def Let_def)

section \<open>Properties of the video demux\<close>

subsection \<open>Searching for a marker\<close>

lemma matchAt_occurs:
  assumes "i + length p \<le> length d"
  shows "matchAt d p i \<longleftrightarrow> occurs_at d p i"
proof -
  have "matchAt d p i \<longleftrightarrow> (\<forall>j<length p. d ! (i + j) = p ! j)"
    by (auto simp: matchAt_def list_all_iff)
  also have "\<dots> \<longleftrightarrow> take (length p) (drop i d) = p"
    using assms by (auto simp: list_eq_iff_nth_eq)
  finally show ?thesis
    using assms by (simp add: occurs_at_def)
qed

lemma findFrom_found:
  "findFrom d p i = k \<Longrightarrow> k \<noteq> - 1 \<Longrightarrow>
     int i \<le> k \<and> occurs_at d p (nat k) \<and> (\<forall>j. i \<le> j \<and> j < nat k \<longrightarrow> \<not> occurs_at d p j)"
proof (induction d p i rule: findFrom.induct)
  case (1 d p i)
  show ?case
  proof (cases "i + length p \<le> length d")
    case False
    with "1.prems" show ?thesis
      by (simp add: findFrom.simps [of d p i])
  next
    case inb: True
    show ?thesis
    proof (cases "matchAt d p i")
      case True
      with inb "1.prems" have "k = int i"
        by (simp add: findFrom.simps [of d p i])
      with True inb show ?thesis
        by (auto simp: matchAt_occurs)
    next
      case False
      with inb "1.prems" have rec: "findFrom d p (Suc i) = k"
        by (simp add: findFrom.simps [of d p i])
      from "1.IH" [OF inb False rec "1.prems"(2)]
      have ih: "int (Suc i) \<le> k" "occurs_at d p (nat k)"
        "\<forall>j. Suc i \<le> j \<and> j < nat k \<longrightarrow> \<not> occurs_at d p j"
        by simp_all
      have "\<not> occurs_at d p i"
        using False inb by (simp add: matchAt_occurs)
      have "\<not> occurs_at d p j" if "i \<le> j" "j < nat k" for j
      proof (cases "j = i")
        case True
        with \<open>\<not> occurs_at d p i\<close> show ?thesis by simp
      next
        case False
        with that have "Suc i \<le> j" by simp
        with ih(3) that show ?thesis by blast
      qed
      with ih show ?thesis
        by simp
    qed
  qed
qed

lemma findFrom_none:
  "findFrom d p i = - 1 \<Longrightarrow> i \<le> j \<Longrightarrow> \<not> occurs_at d p j"
proof (induction d p i rule: findFrom.induct)
  case (1 d p i)
  show ?case
  proof (cases "i + length p \<le> length d")
    case False
    with "1.prems" show ?thesis
      by (simp add: occurs_at_def)
  next
    case inb: True
    have nm: "\<not> matchAt d p i"
      using "1.prems" inb by (auto simp: findFrom.simps [of d p i] split: if_splits)
    then have rec: "findFrom d p (Suc i) = - 1"
      using "1.prems" inb by (simp add: findFrom.simps [of d p i])
    show ?thesis
    proof (cases "j = i")
      case True
      with nm inb show ?thesis
        by (simp add: matchAt_occurs)
    next
      case False
      with "1.prems" have "Suc i \<le> j"
        by simp
      from "1.IH" [OF inb nm rec this] show ?thesis .
    qed
  qed
qed

lemma findBytes_found:
  assumes "findBytes d p \<noteq> - 1"
  shows "0 \<le> findBytes d p" and "occurs_at d p (nat (findBytes d p))"
    and "\<And>j. j < nat (findBytes d p) \<Longrightarrow> \<not> occurs_at d p j"
    and "p \<noteq> []"
proof -
  from assms have eq: "findBytes d p = findFrom d p 0" and ne: "p \<noteq> []"
    by (auto simp: findBytes_def split: if_splits)
  from findFrom_found [OF refl, of d p 0] assms eq
  have *: "0 \<le> findFrom d p 0" "occurs_at d p (nat (findFrom d p 0))"
    "\<forall>j. j < nat (findFrom d p 0) \<longrightarrow> \<not> occurs_at d p j"
    by simp_all
  show "0 \<le> findBytes d p" "occurs_at d p (nat (findBytes d p))" "p \<noteq> []"
    using * eq ne by simp_all
  show "\<And>j. j < nat (findBytes d p) \<Longrightarrow> \<not> occurs_at d p j"
    using * eq by simp
qed

lemma findBytes_none:
  assumes "findBytes d p = - 1" and "p \<noteq> []"
  shows "\<not> occurs_at d p j"
proof (cases "length d < length p")
  case True
  then show ?thesis
    by (simp add: occurs_at_def)
next
  case False
  with assms have "findFrom d p 0 = - 1"
    by (simp add: findBytes_def)
  then show ?thesis
    by (rule findFrom_none) simp
qed

lemma findBytes_eqI:
  assumes "p \<noteq> []" and "occurs_at d p k" and "\<And>j. j < k \<Longrightarrow> \<not> occurs_at d p j"
  shows "findBytes d p = int k"
proof -
  have ne: "findBytes d p \<noteq> - 1"
    using findBytes_none [OF _ assms(1), of d k] assms(2) by blast
  note f = findBytes_found [OF ne]
  have "\<not> nat (findBytes d p) < k"
    using assms(3) f(2) by blast
  moreover have "\<not> k < nat (findBytes d p)"
    using f(3) assms(2) by blast
  ultimately have "nat (findBytes d p) = k"
    by simp
  with f(1) show ?thesis
    by simp
qed

subsection \<open>The scan\<close>

lemma parseFrames_no_start:
  "findBytes b jpegStart = - 1 \<Longrightarrow> parseFrames b = ([], b)"
  by (simp add: parseFrames.simps [of b])

lemma parseFrames_no_end:
  "findBytes (drop (nat (findBytes b jpegStart)) b) jpegEnd = - 1 \<Longrightarrow> parseFrames b = ([], b)"
  by (simp add: parseFrames.simps [of b] Let_def)

lemma parseFrames_emit:
  assumes "findBytes b jpegStart = int s"
    and "findBytes (drop s b) jpegEnd = int e"
  shows "parseFrames b =
           (take (e + 2) (drop s b) # fst (parseFrames (drop (s + e + 2) b)),
            snd (parseFrames (drop (s + e + 2) b)))"
proof -
  have "nat (int e + int s + 2) = s + e + 2" "nat (int e + int s + 2 - int s) = e + 2"
    by simp_all
  then show ?thesis
    using assms by (simp add: parseFrames.simps [of b] Let_def split: prod.splits)
qed

lemma parseFrames_cases:
  obtains (no_start) "findBytes b jpegStart = - 1"
  | (no_end) s where "findBytes b jpegStart = int s" "occurs_at b jpegStart s"
      "\<And>j. j < s \<Longrightarrow> \<not> occurs_at b jpegStart j"
      "findBytes (drop s b) jpegEnd = - 1"
  | (emit) s e where "findBytes b jpegStart = int s" "occurs_at b jpegStart s"
      "\<And>j. j < s \<Longrightarrow> \<not> occurs_at b jpegStart j"
      "findBytes (drop s b) jpegEnd = int e" "occurs_at (drop s b) jpegEnd e"
      "\<And>j. j < e \<Longrightarrow> \<not> occurs_at (drop s b) jpegEnd j"
proof (cases "findBytes b jpegStart = - 1")
  case True
  then show ?thesis by (rule no_start)
next
  case ns: False
  note f = findBytes_found [OF ns]
  define s where "s = nat (findBytes b jpegStart)"
  have s: "findBytes b jpegStart = int s" "occurs_at b jpegStart s"
    "\<And>j. j < s \<Longrightarrow> \<not> occurs_at b jpegStart j"
    using f by (simp_all add: s_def)
  show ?thesis
  proof (cases "findBytes (drop s b) jpegEnd = - 1")
    case True
    with s show ?thesis by (rule no_end)
  next
    case ne: False
    note g = findBytes_found [OF ne]
    define e where "e = nat (findBytes (drop s b) jpegEnd)"
    have "findBytes (drop s b) jpegEnd = int e" "occurs_at (drop s b) jpegEnd e"
      "\<And>j. j < e \<Longrightarrow> \<not> occurs_at (drop s b) jpegEnd j"
      using g by (simp_all add: e_def)
    with s show ?thesis by (rule emit)
  qed
qed

lemma end_after_start:
  assumes "occurs_at b jpegStart s" and "occurs_at (drop s b) jpegEnd e"
  shows "2 \<le> e"
proof (rule ccontr)
  assume "\<not> 2 \<le> e"
  then consider "e = 0" | "e = 1" by linarith
  then show False
  proof cases
    case 1
    with assms show False
      by (auto simp: occurs_at_def jpegStart_def jpegEnd_def)
  next
    case 2
    from assms(1) have a: "b ! (s + 1) = 0xD8" "s + 2 \<le> length b"
      by (auto simp: occurs_at_def jpegStart_def list_eq_iff_nth_eq nth_Cons' split: if_splits
          dest: spec [of _ 1])
    from assms(2) 2 have "drop s b ! 1 = 0xFF"
      by (auto simp: occurs_at_def jpegEnd_def list_eq_iff_nth_eq nth_Cons' split: if_splits
          dest: spec [of _ 0])
    with a show False
      by simp
  qed
qed


lemma jpeg_markers [simp]:
  "jpegStart \<noteq> []" "jpegEnd \<noteq> []" "length jpegStart = 2" "length jpegEnd = 2"
  by (simp_all add: jpegStart_def jpegEnd_def)

lemma occurs_at_take:
  "j + length p \<le> n \<Longrightarrow> occurs_at (take n d) p j \<longleftrightarrow> occurs_at d p j"
  by (auto simp: occurs_at_def take_drop min_def)

lemma occurs_at_append:
  "j + length p \<le> length d \<Longrightarrow> occurs_at (d @ c) p j \<longleftrightarrow> occurs_at d p j"
  by (auto simp: occurs_at_def)

lemma occurs_at_drop:
  "p \<noteq> [] \<Longrightarrow> occurs_at (drop s d) p j \<longleftrightarrow> occurs_at d p (s + j)"
  by (cases p) (auto simp: occurs_at_def add.commute add.left_commute)

lemma occurs_at_bound: "occurs_at d p j \<Longrightarrow> j + length p \<le> length d"
  by (simp add: occurs_at_def)

lemma findBytes_append:
  assumes "findBytes d p \<noteq> - 1"
  shows "findBytes (d @ c) p = findBytes d p"
proof -
  note f = findBytes_found [OF assms]
  let ?k = "nat (findBytes d p)"
  have inb: "?k + length p \<le> length d"
    using f(2) by (rule occurs_at_bound)
  have "findBytes (d @ c) p = int ?k"
  proof (rule findBytes_eqI)
    show "p \<noteq> []" by (rule f(4))
    show "occurs_at (d @ c) p ?k"
      using f(2) inb by (simp add: occurs_at_append)
    show "\<not> occurs_at (d @ c) p j" if "j < ?k" for j
      using f(3) [OF that] that inb by (simp add: occurs_at_append)
  qed
  with f(1) show ?thesis
    by simp
qed

lemma parseFrames_frames:
  "f \<in> set (fst (parseFrames b)) \<Longrightarrow>
     occurs_at f jpegStart 0 \<and> occurs_at f jpegEnd (length f - 2) \<and> 4 \<le> length f
     \<and> (\<forall>j < length f - 2. \<not> occurs_at f jpegEnd j)"
proof (induction "length b" arbitrary: b rule: less_induct)
  case less
  show ?case
  proof (cases b rule: parseFrames_cases)
    case no_start
    with less.prems show ?thesis
      by (simp add: parseFrames_no_start)
  next
    case (no_end s)
    with less.prems show ?thesis
      by (simp add: parseFrames_no_end)
  next
    case (emit s e)
    let ?f = "take (e + 2) (drop s b)"
    have pf: "parseFrames b = (?f # fst (parseFrames (drop (s + e + 2) b)),
                snd (parseFrames (drop (s + e + 2) b)))"
      using emit(1,4) by (rule parseFrames_emit)
    have e2: "2 \<le> e"
      using emit(2,5) by (rule end_after_start)
    have eb: "e + 2 \<le> length (drop s b)"
      using occurs_at_bound [OF emit(5)] by (simp add: jpegEnd_def)
    then have len: "length ?f = e + 2"
      by simp
    have shorter: "length (drop (s + e + 2) b) < length b"
      using eb by simp
    from less.prems pf consider "f = ?f" | "f \<in> set (fst (parseFrames (drop (s + e + 2) b)))"
      by auto
    then show ?thesis
    proof cases
      case 1
      have a: "occurs_at ?f jpegStart 0"
        using emit(2) e2 by (simp add: occurs_at_take occurs_at_drop jpegStart_def)
      have b: "occurs_at ?f jpegEnd e"
        using emit(5) by (simp add: occurs_at_take jpegEnd_def)
      have c: "\<not> occurs_at ?f jpegEnd j" if "j < e" for j
        using emit(6) [OF that] that by (simp add: occurs_at_take jpegEnd_def)
      from a b c len e2 1 show ?thesis
        by simp
    next
      case 2
      from less.hyps [OF shorter 2] show ?thesis .
    qed
  qed
qed

lemma parseFrames_rest:
  "occurs_at (snd (parseFrames b)) jpegStart i \<Longrightarrow> occurs_at (snd (parseFrames b)) jpegEnd j
     \<Longrightarrow> j < i"
proof (induction "length b" arbitrary: b rule: less_induct)
  case less
  show ?case
  proof (cases b rule: parseFrames_cases)
    case no_start
    with less.prems(1) show ?thesis
      using findBytes_none [OF no_start, of i] by (simp add: parseFrames_no_start jpegStart_def)
  next
    case (no_end s)
    have rest: "snd (parseFrames b) = b"
      using no_end by (simp add: parseFrames_no_end)
    show ?thesis
    proof (rule ccontr)
      assume "\<not> j < i"
      moreover have "s \<le> i"
        using no_end(3) [of i] less.prems(1) rest by (cases "i < s") simp_all
      ultimately have "s \<le> j"
        by simp
      then have "occurs_at (drop s b) jpegEnd (j - s)"
        using less.prems(2) rest by (simp add: occurs_at_drop)
      then show False
        using findBytes_none [OF no_end(4), of "j - s"] by (simp add: jpegEnd_def)
    qed
  next
    case (emit s e)
    have pf: "snd (parseFrames b) = snd (parseFrames (drop (s + e + 2) b))"
      using parseFrames_emit [OF emit(1,4)] by simp
    have eb: "e + 2 \<le> length (drop s b)"
      using occurs_at_bound [OF emit(5)] by (simp add: jpegEnd_def)
    then have shorter: "length (drop (s + e + 2) b) < length b"
      by simp
    show ?thesis
      using less.hyps [OF shorter] less.prems by (simp add: pf)
  qed
qed

lemma parseFrames_weave:
  "\<exists>gaps. length gaps = length (fst (parseFrames b))
      \<and> b = weave gaps (fst (parseFrames b)) @ snd (parseFrames b)
      \<and> (\<forall>g \<in> set gaps. \<forall>i. \<not> occurs_at g jpegStart i)"
proof (induction "length b" arbitrary: b rule: less_induct)
  case less
  show ?case
  proof (cases b rule: parseFrames_cases)
    case no_start
    then show ?thesis
      by (simp add: parseFrames_no_start)
  next
    case (no_end s)
    then show ?thesis
      by (simp add: parseFrames_no_end)
  next
    case (emit s e)
    let ?b' = "drop (s + e + 2) b"
    have pf: "parseFrames b = (take (e + 2) (drop s b) # fst (parseFrames ?b'),
                snd (parseFrames ?b'))"
      using emit(1,4) by (rule parseFrames_emit)
    have eb: "e + 2 \<le> length (drop s b)"
      using occurs_at_bound [OF emit(5)] by (simp add: jpegEnd_def)
    then have shorter: "length ?b' < length b"
      by simp
    from less.hyps [OF shorter] obtain gaps where gaps:
      "length gaps = length (fst (parseFrames ?b'))"
      "?b' = weave gaps (fst (parseFrames ?b')) @ snd (parseFrames ?b')"
      "\<forall>g \<in> set gaps. \<forall>i. \<not> occurs_at g jpegStart i"
      by blast
    have nog: "\<not> occurs_at (take s b) jpegStart i" for i
    proof
      assume o: "occurs_at (take s b) jpegStart i"
      then have "i + 2 \<le> s"
        using occurs_at_bound [OF o] by (simp add: jpegStart_def)
      then have "occurs_at b jpegStart i" "i < s"
        using o by (simp_all add: occurs_at_take jpegStart_def)
      with emit(3) show False
        by blast
    qed
    have split: "b = take s b @ take (e + 2) (drop s b) @ ?b'"
      by (metis append_take_drop_id drop_drop add.commute add.assoc)
    let ?gaps = "take s b # gaps"
    have "length ?gaps = length (fst (parseFrames b))"
      using gaps(1) by (simp add: pf)
    moreover have "b = weave ?gaps (fst (parseFrames b)) @ snd (parseFrames b)"
      using split gaps(2) by (simp add: pf)
    moreover have "\<forall>g \<in> set ?gaps. \<forall>i. \<not> occurs_at g jpegStart i"
      using nog gaps(3) by simp
    ultimately show ?thesis
      by blast
  qed
qed

lemma parseFrames_append:
  "parseFrames (b @ c) =
     (fst (parseFrames b) @ fst (parseFrames (snd (parseFrames b) @ c)),
      snd (parseFrames (snd (parseFrames b) @ c)))"
proof (induction "length b" arbitrary: b rule: less_induct)
  case less
  show ?case
  proof (cases b rule: parseFrames_cases)
    case no_start
    then show ?thesis
      by (simp add: parseFrames_no_start)
  next
    case (no_end s)
    then show ?thesis
      by (simp add: parseFrames_no_end)
  next
    case (emit s e)
    let ?b' = "drop (s + e + 2) b"
    have pf: "parseFrames b = (take (e + 2) (drop s b) # fst (parseFrames ?b'),
                snd (parseFrames ?b'))"
      using emit(1,4) by (rule parseFrames_emit)
    have sb: "s + 2 \<le> length b"
      using occurs_at_bound [OF emit(2)] by (simp add: jpegStart_def)
    have eb: "e + 2 \<le> length (drop s b)"
      using occurs_at_bound [OF emit(5)] by (simp add: jpegEnd_def)
    then have shorter: "length ?b' < length b"
      by simp
    have s': "findBytes (b @ c) jpegStart = int s"
      using findBytes_append [of b jpegStart c] emit(1) by simp
    have dr: "drop s (b @ c) = drop s b @ c"
      using sb by simp
    have e': "findBytes (drop s (b @ c)) jpegEnd = int e"
      unfolding dr using findBytes_append [of "drop s b" jpegEnd c] emit(4) by simp
    have pf': "parseFrames (b @ c) =
        (take (e + 2) (drop s (b @ c)) # fst (parseFrames (drop (s + e + 2) (b @ c))),
         snd (parseFrames (drop (s + e + 2) (b @ c))))"
      using s' e' by (rule parseFrames_emit)
    have t: "take (e + 2) (drop s (b @ c)) = take (e + 2) (drop s b)"
      unfolding dr using eb by simp
    have d: "drop (s + e + 2) (b @ c) = ?b' @ c"
      using eb by simp
    have ih: "parseFrames (?b' @ c) =
        (fst (parseFrames ?b') @ fst (parseFrames (snd (parseFrames ?b') @ c)),
         snd (parseFrames (snd (parseFrames ?b') @ c)))"
      by (rule less.hyps [OF shorter])
    show ?thesis
      unfolding pf' t d ih pf by simp
  qed
qed

lemma parseFrames_rest_length: "length (snd (parseFrames b)) \<le> length b"
proof -
  from parseFrames_weave [of b] obtain gaps where
    "b = weave gaps (fst (parseFrames b)) @ snd (parseFrames b)"
    by blast
  then have "length b = length (weave gaps (fst (parseFrames b))) + length (snd (parseFrames b))"
    by (metis length_append)
  then show ?thesis
    by simp
qed

lemma parseFrames_idem: "parseFrames (snd (parseFrames b)) = ([], snd (parseFrames b))"
proof (cases "snd (parseFrames b)" rule: parseFrames_cases)
  case no_start
  then show ?thesis by (rule parseFrames_no_start)
next
  case (no_end s)
  then show ?thesis by (simp add: parseFrames_no_end)
next
  case (emit s e)
  have "occurs_at (snd (parseFrames b)) jpegEnd (s + e)"
    using emit(5) by (simp add: occurs_at_drop)
  from parseFrames_rest [OF emit(2) this] show ?thesis
    by simp
qed


lemma demuxChunk_small:
  assumes "length fb + length c \<le> 2 * 1024 * 1024"
  shows "demuxChunk fb c = parseFrames (fb @ c)"
proof -
  have "length (snd (parseFrames (fb @ c))) \<le> length (fb @ c)"
    by (rule parseFrames_rest_length)
  with assms have "\<not> 2 * 1024 * 1024 < length (snd (parseFrames (fb @ c)))"
    by simp
  then show ?thesis
    by (simp add: demuxChunk_def Let_def case_prod_beta)
qed

lemma demuxStream_concat:
  "parseFrames fb = ([], fb) \<Longrightarrow> length fb + length (concat cs) \<le> 2 * 1024 * 1024
     \<Longrightarrow> demuxStream fb cs = parseFrames (fb @ concat cs)"
proof (induction cs arbitrary: fb)
  case Nil
  then show ?case by simp
next
  case (Cons c cs)
  let ?fb' = "snd (parseFrames (fb @ c))"
  have small: "length fb + length c \<le> 2 * 1024 * 1024"
    using Cons.prems(2) by simp
  have chunk: "demuxChunk fb c = parseFrames (fb @ c)"
    using small by (rule demuxChunk_small)
  have settled: "parseFrames ?fb' = ([], ?fb')"
    by (rule parseFrames_idem)
  have "length ?fb' \<le> length (fb @ c)"
    by (rule parseFrames_rest_length)
  then have len: "length ?fb' + length (concat cs) \<le> 2 * 1024 * 1024"
    using Cons.prems(2) by simp
  have ih: "demuxStream ?fb' cs = parseFrames (?fb' @ concat cs)"
    using settled len by (rule Cons.IH)
  have "demuxStream fb (c # cs) =
          (fst (parseFrames (fb @ c)) @ fst (parseFrames (?fb' @ concat cs)),
           snd (parseFrames (?fb' @ concat cs)))"
    by (simp add: chunk ih case_prod_beta)
  also have "\<dots> = parseFrames ((fb @ c) @ concat cs)"
    by (rule parseFrames_append [symmetric])
  finally show ?case
    by simp
qed

lemma demuxChunk_bound: "length (snd (demuxChunk fb c)) \<le> 2 * 1024 * 1024"
  by (simp add: demuxChunk_def Let_def case_prod_beta)

lemma demuxStream_bound:
  "length fb \<le> 2 * 1024 * 1024 \<or> cs \<noteq> [] \<Longrightarrow>
     length (snd (demuxStream fb cs)) \<le> 2 * 1024 * 1024"
proof (induction cs arbitrary: fb)
  case Nil
  then show ?case by simp
next
  case (Cons c cs)
  have "length (snd (demuxStream (snd (demuxChunk fb c)) cs)) \<le> 2 * 1024 * 1024"
    using demuxChunk_bound [of fb c] by (intro Cons.IH) simp
  then show ?case
    by (simp add: case_prod_beta)
qed

lemma parseFrames_no_pair:
  assumes "\<And>i j. occurs_at b jpegStart i \<Longrightarrow> occurs_at b jpegEnd j \<Longrightarrow> j < i"
  shows "parseFrames b = ([], b)"
proof (cases b rule: parseFrames_cases)
  case no_start
  then show ?thesis by (rule parseFrames_no_start)
next
  case (no_end s)
  then show ?thesis by (simp add: parseFrames_no_end)
next
  case (emit s e)
  have "occurs_at b jpegEnd (s + e)"
    using emit(5) by (simp add: occurs_at_drop)
  from assms [OF emit(2) this] show ?thesis
    by simp
qed

lemma occurs_at_first:
  assumes "occurs_at d p i" and "p \<noteq> []"
  shows "hd p \<in> set d"
proof -
  from assms have "i < length d" and "take (length p) (drop i d) = p"
    by (cases p; simp add: occurs_at_def)+
  then have "hd p = d ! i"
    using assms(2) by (metis hd_drop_conv_nth hd_take length_greater_0_conv)
  with \<open>i < length d\<close> show ?thesis
    by simp
qed

text \<open>
  Claim C4. However the ten bytes \<open>FF D8 41 FF D9 FF D8 42 FF D9\<close> are cut into reads, the
  demux emits exactly the two frames \<open>FF D8 41 FF D9\<close> and \<open>FF D8 42 FF D9\<close>, in that order,
  and keeps nothing. In general, for any working buffer: every emitted frame starts with
  the start marker and ends with the end marker, which is the only end marker in it; the
  buffer is the emitted frames in order, each after a stretch without a start marker,
  followed by what is kept; and what is kept holds no start marker with an end marker
  after it.
\<close>

theorem video_demux_frames:
  "(concat chunks = [0xFF, 0xD8, 0x41, 0xFF, 0xD9, 0xFF, 0xD8, 0x42, 0xFF, 0xD9] \<longrightarrow>
      demuxStream [] chunks
        = ([[0xFF, 0xD8, 0x41, 0xFF, 0xD9], [0xFF, 0xD8, 0x42, 0xFF, 0xD9]], []))
   \<and> (\<forall>f \<in> set (fst (parseFrames b)).
         4 \<le> length f \<and> take 2 f = jpegStart \<and> drop (length f - 2) f = jpegEnd
         \<and> (\<forall>j < length f - 2. \<not> occurs_at f jpegEnd j))
   \<and> (\<exists>gaps. length gaps = length (fst (parseFrames b))
         \<and> b = weave gaps (fst (parseFrames b)) @ snd (parseFrames b)
         \<and> (\<forall>g \<in> set gaps. \<forall>i. \<not> occurs_at g jpegStart i))
   \<and> (\<forall>i j. occurs_at (snd (parseFrames b)) jpegStart i
         \<longrightarrow> occurs_at (snd (parseFrames b)) jpegEnd j \<longrightarrow> j < i)"
proof -
  let ?input = "[0xFF, 0xD8, 0x41, 0xFF, 0xD9, 0xFF, 0xD8, 0x42, 0xFF, 0xD9] :: bytes"
  have run: "parseFrames ?input
               = ([[0xFF, 0xD8, 0x41, 0xFF, 0xD9], [0xFF, 0xD8, 0x42, 0xFF, 0xD9]], [])"
    by code_simp
  have empty: "parseFrames [] = ([], [])"
    by (rule parseFrames_no_start) (simp add: findBytes_def)
  have one: "demuxStream [] chunks
               = ([[0xFF, 0xD8, 0x41, 0xFF, 0xD9], [0xFF, 0xD8, 0x42, 0xFF, 0xD9]], [])"
    if c: "concat chunks = ?input"
  proof -
    have "demuxStream [] chunks = parseFrames ([] @ concat chunks)"
      by (rule demuxStream_concat [OF empty]) (simp add: c)
    then show ?thesis
      by (simp add: c run)
  qed
  have two: "4 \<le> length f \<and> take 2 f = jpegStart \<and> drop (length f - 2) f = jpegEnd
         \<and> (\<forall>j < length f - 2. \<not> occurs_at f jpegEnd j)"
    if "f \<in> set (fst (parseFrames b))" for f
    using parseFrames_frames [OF that] by (auto simp: occurs_at_def)
  show ?thesis
    using one two parseFrames_weave [of b] parseFrames_rest [of b] by blast
qed


theorem video_demux_frames_witness:
  "concat [[0xFF, 0xD8, 0x41], [0xFF, 0xD9, 0xFF, 0xD8], [0x42, 0xFF, 0xD9 :: 8 word]]
     = [0xFF, 0xD8, 0x41, 0xFF, 0xD9, 0xFF, 0xD8, 0x42, 0xFF, 0xD9]
   \<and> demuxStream [] [[0xFF, 0xD8, 0x41], [0xFF, 0xD9, 0xFF, 0xD8], [0x42, 0xFF, 0xD9]]
     = ([[0xFF, 0xD8, 0x41, 0xFF, 0xD9], [0xFF, 0xD8, 0x42, 0xFF, 0xD9]], [])
   \<and> fst (parseFrames [0x00, 0xFF, 0xD8, 0x41, 0xFF, 0xD9, 0x07, 0xFF, 0xD8, 0x42])
     = [[0xFF, 0xD8, 0x41, 0xFF, 0xD9]]
   \<and> take 2 [0xFF, 0xD8, 0x41, 0xFF, 0xD9] = jpegStart
   \<and> drop (length [0xFF, 0xD8, 0x41, 0xFF, 0xD9 :: 8 word] - 2) [0xFF, 0xD8, 0x41, 0xFF, 0xD9]
     = jpegEnd
   \<and> snd (parseFrames [0x00, 0xFF, 0xD8, 0x41, 0xFF, 0xD9, 0x07, 0xFF, 0xD8, 0x42])
     = [0x07, 0xFF, 0xD8, 0x42]"
proof -
  let ?chunks = "[[0xFF, 0xD8, 0x41], [0xFF, 0xD9, 0xFF, 0xD8], [0x42, 0xFF, 0xD9]] :: bytes list"
  let ?b = "[0x00, 0xFF, 0xD8, 0x41, 0xFF, 0xD9, 0x07, 0xFF, 0xD8, 0x42] :: bytes"
  have run: "parseFrames ?b = ([[0xFF, 0xD8, 0x41, 0xFF, 0xD9]], [0x07, 0xFF, 0xD8, 0x42])"
    by code_simp
  have cat: "concat ?chunks = [0xFF, 0xD8, 0x41, 0xFF, 0xD9, 0xFF, 0xD8, 0x42, 0xFF, 0xD9]"
    by simp
  note inst = video_demux_frames [of ?chunks ?b]
  from inst cat have c2: "demuxStream [] ?chunks
      = ([[0xFF, 0xD8, 0x41, 0xFF, 0xD9], [0xFF, 0xD8, 0x42, 0xFF, 0xD9]], [])"
    by blast
  have mem: "[0xFF, 0xD8, 0x41, 0xFF, 0xD9] \<in> set (fst (parseFrames ?b))"
    by (simp add: run)
  from inst mem have c4: "take 2 [0xFF, 0xD8, 0x41, 0xFF, 0xD9] = jpegStart"
    and c5: "drop (length [0xFF, 0xD8, 0x41, 0xFF, 0xD9 :: 8 word] - 2)
               [0xFF, 0xD8, 0x41, 0xFF, 0xD9] = jpegEnd"
    by blast+
  have c3: "fst (parseFrames ?b) = [[0xFF, 0xD8, 0x41, 0xFF, 0xD9]]"
    and c6: "snd (parseFrames ?b) = [0x07, 0xFF, 0xD8, 0x42]"
    by (simp_all only: run fst_conv snd_conv)
  from cat c2 c3 c4 c5 c6 show ?thesis
    by blast
qed

text \<open>
  Claim C5. After any read has been processed the working buffer is at most 2 MB long;
  when what the scan leaves is longer than 2 MB, the buffer becomes exactly its last 1 MB;
  a buffer and read with no start marker followed by an end marker emit nothing and leave
  the whole of it to that check; and so the buffer is at most 2 MB after every read of any
  stream.
\<close>

theorem demux_buffer_ceiling:
  "length (snd (demuxChunk fb chunk)) \<le> 2 * 1024 * 1024
   \<and> (2 * 1024 * 1024 < length (snd (parseFrames (fb @ chunk))) \<longrightarrow>
        snd (demuxChunk fb chunk)
          = drop (length (snd (parseFrames (fb @ chunk))) - 1024 * 1024)
              (snd (parseFrames (fb @ chunk)))
        \<and> length (snd (demuxChunk fb chunk)) = 1024 * 1024)
   \<and> ((\<forall>i j. occurs_at (fb @ chunk) jpegStart i \<longrightarrow> occurs_at (fb @ chunk) jpegEnd j
          \<longrightarrow> j < i)
        \<longrightarrow> parseFrames (fb @ chunk) = ([], fb @ chunk))
   \<and> (chunks \<noteq> [] \<longrightarrow> length (snd (demuxStream fb chunks)) \<le> 2 * 1024 * 1024)"
proof -
  have a: "length (snd (demuxChunk fb chunk)) \<le> 2 * 1024 * 1024"
    by (rule demuxChunk_bound)
  have b: "snd (demuxChunk fb chunk)
          = drop (length (snd (parseFrames (fb @ chunk))) - 1024 * 1024)
              (snd (parseFrames (fb @ chunk)))
        \<and> length (snd (demuxChunk fb chunk)) = 1024 * 1024"
    if "2 * 1024 * 1024 < length (snd (parseFrames (fb @ chunk)))"
    using that by (simp add: demuxChunk_def Let_def case_prod_beta)
  have c: "parseFrames (fb @ chunk) = ([], fb @ chunk)"
    if "\<forall>i j. occurs_at (fb @ chunk) jpegStart i \<longrightarrow> occurs_at (fb @ chunk) jpegEnd j
          \<longrightarrow> j < i"
    using that by (intro parseFrames_no_pair) blast
  have d: "length (snd (demuxStream fb chunks)) \<le> 2 * 1024 * 1024" if "chunks \<noteq> []"
    using that by (intro demuxStream_bound) simp
  from a b c d show ?thesis
    by blast
qed

theorem demux_buffer_ceiling_witness:
  "parseFrames (replicate (2 * 1024 * 1024) 0 @ [0])
     = ([], replicate (2 * 1024 * 1024) 0 @ [0])
   \<and> length (replicate (2 * 1024 * 1024) (0 :: 8 word) @ [0]) = 2 * 1024 * 1024 + 1
   \<and> snd (demuxChunk (replicate (2 * 1024 * 1024) 0) [0]) = replicate (1024 * 1024) 0
   \<and> length (snd (demuxStream (replicate (2 * 1024 * 1024) 0) [[0], [0]])) \<le> 2 * 1024 * 1024"
proof -
  let ?fb = "replicate (2 * 1024 * 1024) 0 :: bytes"
  have none: "\<not> occurs_at (?fb @ [0]) jpegStart i" for i
  proof
    assume "occurs_at (?fb @ [0]) jpegStart i"
    then have "hd jpegStart \<in> set (?fb @ [0])"
      by (rule occurs_at_first) simp
    then show False
      by (simp add: jpegStart_def)
  qed
  have nonempty: "[[0], [0 :: 8 word]] \<noteq> []"
    by simp
  note inst = demux_buffer_ceiling [of ?fb "[0]" "[[0], [0]]"]
  from inst none have pf: "parseFrames (?fb @ [0]) = ([], ?fb @ [0])"
    by blast
  have big: "2 * 1024 * 1024 < length (snd (parseFrames (?fb @ [0])))"
    unfolding pf by simp
  from inst big have "snd (demuxChunk ?fb [0]) = drop (length (snd (parseFrames (?fb @ [0]))) - 1024 * 1024)
              (snd (parseFrames (?fb @ [0])))"
    by blast
  then have tail: "snd (demuxChunk ?fb [0]) = replicate (1024 * 1024) 0"
    unfolding pf by (simp add: replicate_append_same)
  from inst nonempty have "length (snd (demuxStream ?fb [[0], [0]])) \<le> 2 * 1024 * 1024"
    by blast
  moreover have "length (?fb @ [0]) = 2 * 1024 * 1024 + 1"
    by simp
  ultimately show ?thesis
    using pf tail by blast
qed

section \<open>Properties of the capturer\<close>

subsection \<open>Association lists: the channels a table stores\<close>

lemma update_values: "snd ` set (AList.update k v al) \<subseteq> insert v (snd ` set al)"
  by (induction al) auto

lemma update_member: "(k, v) \<in> set (AList.update k v al)"
  by (induction al) auto

lemma distinct_update_values:
  "distinct (map snd al) \<Longrightarrow> v \<notin> snd ` set al \<Longrightarrow> distinct (map snd (AList.update k v al))"
proof (induction al)
  case Nil
  then show ?case by simp
next
  case (Cons p al)
  obtain k' v' where p: "p = (k', v')"
    by (cases p)
  show ?case
  proof (cases "k' = k")
    case True
    with Cons.prems p show ?thesis by auto
  next
    case False
    have "v' \<notin> snd ` set (AList.update k v al)"
      using update_values [of k v al] Cons.prems p by auto
    with False Cons p show ?thesis by auto
  qed
qed

lemma delete_values: "snd ` set (AList.delete k al) \<subseteq> snd ` set al"
  by (auto simp: AList.delete_eq)

lemma distinct_delete_values:
  "distinct (map snd al) \<Longrightarrow> distinct (map snd (AList.delete k al))"
  by (simp add: AList.delete_eq distinct_map_filter)

lemma same_value_same_key:
  "distinct (map snd al) \<Longrightarrow> (a, v) \<in> set al \<Longrightarrow> (b, v) \<in> set al \<Longrightarrow> a = b"
  by (induction al) (auto simp: image_iff)

lemma delete_removes_value:
  assumes "distinct (map snd al)" and "map_of al k = Some v"
  shows "v \<notin> snd ` set (AList.delete k al)"
proof
  assume "v \<in> snd ` set (AList.delete k al)"
  then obtain k' where k': "(k', v) \<in> set al" "k' \<noteq> k"
    by (auto simp: AList.delete_eq)
  from assms(2) have "(k, v) \<in> set al"
    by (rule map_of_SomeD)
  with assms(1) k' show False
    using same_value_same_key by fastforce
qed

subsection \<open>Channel operations on an open channel\<close>

lemma chan_buf_same: "buf q = b \<Longrightarrow> q\<lparr>buf := b\<rparr> = q"
  by auto

lemma closeChan_open:
  "ch < length h \<Longrightarrow> \<not> closed (h ! ch) \<Longrightarrow>
     closeChan h ch = Inr (h[ch := (h ! ch)\<lparr>closed := True\<rparr>])"
  by (simp add: closeChan_def)

lemma closeAll_open:
  assumes "distinct (map fst tbl)" and "distinct (map snd tbl)"
    and "\<forall>ch \<in> snd ` set tbl. ch < length h \<and> \<not> closed (h ! ch)"
  shows "\<exists>h'. closeAll h tbl = Inr (h', []) \<and> length h' = length h
           \<and> (\<forall>b < length h. h' ! b = (if b \<in> snd ` set tbl then (h ! b)\<lparr>closed := True\<rparr>
                                        else h ! b))"
  using assms
proof (induction tbl arbitrary: h)
  case Nil
  then show ?case by simp
next
  case (Cons p tbl)
  obtain sid ch where p: "p = (sid, ch)"
    by (cases p)
  let ?h1 = "h[ch := (h ! ch)\<lparr>closed := True\<rparr>]"
  have ch: "ch < length h" "\<not> closed (h ! ch)"
    using Cons.prems(3) p by auto
  have fresh: "sid \<notin> fst ` set tbl" "ch \<notin> snd ` set tbl"
    using Cons.prems(1,2) p by (auto simp: image_iff)
  have old: "b < length h \<and> \<not> closed (h ! b)" if "b \<in> snd ` set tbl" for b
    using Cons.prems(3) that by auto
  have rest: "\<forall>b \<in> snd ` set tbl. b < length ?h1 \<and> \<not> closed (?h1 ! b)"
  proof
    fix b assume b: "b \<in> snd ` set tbl"
    with fresh(2) have "b \<noteq> ch" by auto
    with old [OF b] show "b < length ?h1 \<and> \<not> closed (?h1 ! b)"
      by simp
  qed
  from Cons.IH [of ?h1] Cons.prems(1,2) rest
  obtain h' where h': "closeAll ?h1 tbl = Inr (h', [])" "length h' = length h"
    "\<forall>b < length h. h' ! b = (if b \<in> snd ` set tbl then (?h1 ! b)\<lparr>closed := True\<rparr>
                                else ?h1 ! b)"
    by auto
  have "closeAll h (p # tbl) = Inr (h', [])"
    using h'(1) ch fresh(1) by (simp add: p closeChan_open)
  moreover have "h' ! b = (if b \<in> snd ` set (p # tbl) then (h ! b)\<lparr>closed := True\<rparr> else h ! b)"
    if "b < length h" for b
    using h'(3) that fresh(2) ch by (auto simp: p nth_list_update)
  ultimately show ?case
    using h'(2) by blast
qed

lemma trySend_open:
  "ch < length h \<Longrightarrow> \<not> closed (h ! ch) \<Longrightarrow>
     trySend h ch x =
       (if length (buf (h ! ch)) < cap (h ! ch)
        then Inr (True, h[ch := (h ! ch)\<lparr>buf := buf (h ! ch) @ [x]\<rparr>])
        else Inr (False, h))"
  by (simp add: trySend_def)

text \<open>What one subscriber's queue holds after each kind of send.\<close>

lemma sendFrame_open:
  assumes "ch < length h" and "\<not> closed (h ! ch)"
  shows "sendFrame h ch x =
     Inr (h[ch := (h ! ch)\<lparr>buf :=
            (if length (buf (h ! ch)) < cap (h ! ch) then buf (h ! ch) @ [x]
             else if buf (h ! ch) = [] then []
             else if length (tl (buf (h ! ch))) < cap (h ! ch) then tl (buf (h ! ch)) @ [x]
             else tl (buf (h ! ch)))\<rparr>])"
proof (cases "length (buf (h ! ch)) < cap (h ! ch)")
  case True
  with assms show ?thesis
    by (simp add: sendFrame_def trySend_open)
next
  case full: False
  show ?thesis
  proof (cases "buf (h ! ch)")
    case Nil
    with full assms show ?thesis
      by (simp add: sendFrame_def trySend_open tryRecv_def chan_buf_same)
  next
    case (Cons y ys)
    let ?h2 = "h[ch := (h ! ch)\<lparr>buf := ys\<rparr>]"
    have recv: "tryRecv h ch = (Received y, ?h2)"
      using assms Cons by (simp add: tryRecv_def)
    have open2: "ch < length ?h2" "\<not> closed (?h2 ! ch)"
      using assms by simp_all
    show ?thesis
      using full assms Cons
      by (simp add: sendFrame_def trySend_open [OF assms] recv trySend_open [OF open2])
  qed
qed

lemma sendAudio_open:
  assumes "ch < length h" and "\<not> closed (h ! ch)"
  shows "sendAudio h ch x =
     Inr (h[ch := (h ! ch)\<lparr>buf :=
            (if length (buf (h ! ch)) < cap (h ! ch) then buf (h ! ch) @ [x]
             else buf (h ! ch))\<rparr>])"
  using assms by (simp add: sendAudio_def trySend_open chan_buf_same)

text \<open>
  A broadcast over a table of open, pairwise different channels: each stored channel gets
  the effect of one send, and nothing else changes.
\<close>

lemma broadcastTo_open:
  assumes send: "\<And>h ch. ch < length h \<Longrightarrow> \<not> closed (h ! ch) \<Longrightarrow>
                   send h ch x = Inr (h[ch := (h ! ch)\<lparr>buf := f (h ! ch)\<rparr>])"
    and "distinct (map snd tbl)"
    and "\<forall>ch \<in> snd ` set tbl. ch < length h \<and> \<not> closed (h ! ch)"
  shows "\<exists>h'. broadcastTo send h tbl x = Inr h' \<and> length h' = length h
           \<and> (\<forall>b < length h. h' ! b = (if b \<in> snd ` set tbl then (h ! b)\<lparr>buf := f (h ! b)\<rparr>
                                        else h ! b))"
  using assms(2,3)
proof (induction tbl arbitrary: h)
  case Nil
  then show ?case by simp
next
  case (Cons p tbl)
  obtain sid ch where p: "p = (sid, ch)"
    by (cases p)
  let ?h1 = "h[ch := (h ! ch)\<lparr>buf := f (h ! ch)\<rparr>]"
  have ch: "ch < length h" "\<not> closed (h ! ch)"
    using Cons.prems(2) p by auto
  have fresh: "ch \<notin> snd ` set tbl"
    using Cons.prems(1) p by (auto simp: image_iff)
  have old: "b < length h \<and> \<not> closed (h ! b)" if "b \<in> snd ` set tbl" for b
    using Cons.prems(2) that by auto
  have rest: "\<forall>b \<in> snd ` set tbl. b < length ?h1 \<and> \<not> closed (?h1 ! b)"
  proof
    fix b assume b: "b \<in> snd ` set tbl"
    with fresh have "b \<noteq> ch" by auto
    with old [OF b] show "b < length ?h1 \<and> \<not> closed (?h1 ! b)"
      by simp
  qed
  from Cons.IH [of ?h1] Cons.prems(1) rest
  obtain h' where h': "broadcastTo send ?h1 tbl x = Inr h'" "length h' = length h"
    "\<forall>b < length h. h' ! b = (if b \<in> snd ` set tbl then (?h1 ! b)\<lparr>buf := f (?h1 ! b)\<rparr>
                                else ?h1 ! b)"
    by auto
  have "broadcastTo send h (p # tbl) x = Inr h'"
    using h'(1) send [OF ch] by (simp add: p)
  moreover have "h' ! b = (if b \<in> snd ` set (p # tbl) then (h ! b)\<lparr>buf := f (h ! b)\<rparr> else h ! b)"
    if "b < length h" for b
    using h'(3) that fresh ch by (auto simp: p nth_list_update)
  ultimately show ?case
    using h'(2) by blast
qed


subsection \<open>The tables between steps\<close>

lemma tables_ok_iff:
  "tables_ok c \<longleftrightarrow>
     distinct (map fst (frameSubscribers c)) \<and> distinct (map fst (audioSubscribers c))
     \<and> distinct (map snd (frameSubscribers c)) \<and> distinct (map snd (audioSubscribers c))
     \<and> snd ` set (frameSubscribers c) \<inter> snd ` set (audioSubscribers c) = {}
     \<and> (\<forall>ch \<in> snd ` set (frameSubscribers c) \<union> snd ` set (audioSubscribers c).
           ch < length (chans c) \<and> \<not> closed (chans c ! ch))"
  by (auto simp: tables_ok_def list_all_iff)

lemma tables_ok_New: "tables_ok (NewAVCapturer cfg)"
  by (simp add: tables_ok_def NewAVCapturer_def)

lemma tables_ok_disjoint:
  "tables_ok c \<Longrightarrow> snd ` set (frameSubscribers c) \<inter> snd ` set (audioSubscribers c) = {}"
  by (simp add: tables_ok_iff)

lemma tables_ok_valid:
  "tables_ok c \<Longrightarrow>
     \<forall>ch \<in> snd ` set (frameSubscribers c) \<union> snd ` set (audioSubscribers c).
        ch < length (chans c) \<and> \<not> closed (chans c ! ch)"
  by (simp add: tables_ok_iff)

lemma tables_ok_shrink:
  assumes ok: "tables_ok c"
    and F: "distinct (map fst F)" "distinct (map snd F)" "snd ` set F \<subseteq> snd ` set (frameSubscribers c)"
    and A: "distinct (map fst A)" "distinct (map snd A)" "snd ` set A \<subseteq> snd ` set (audioSubscribers c)"
    and len: "length h = length (chans c)"
    and op: "\<And>b. b \<in> snd ` set F \<union> snd ` set A \<Longrightarrow> \<not> closed (h ! b)"
  shows "tables_ok (c\<lparr>chans := h, frameSubscribers := F, audioSubscribers := A\<rparr>)"
proof -
  have disj: "snd ` set F \<inter> snd ` set A = {}"
    using tables_ok_disjoint [OF ok] F(3) A(3) by blast
  have valid: "b < length h \<and> \<not> closed (h ! b)" if "b \<in> snd ` set F \<union> snd ` set A" for b
  proof -
    from that F(3) A(3) have "b \<in> snd ` set (frameSubscribers c) \<union> snd ` set (audioSubscribers c)"
      by blast
    with tables_ok_valid [OF ok] have "b < length (chans c)"
      by blast
    with op [OF that] len show ?thesis
      by simp
  qed
  have "\<forall>ch \<in> snd ` set F \<union> snd ` set A. ch < length h \<and> \<not> closed (h ! ch)"
    using valid by blast
  then show ?thesis
    unfolding tables_ok_iff by (simp add: F(1,2) A(1,2) disj)
qed

lemma tables_ok_keys:
  assumes "tables_ok c"
  shows "distinct (map fst (frameSubscribers c))" "distinct (map snd (frameSubscribers c))"
    "distinct (map fst (audioSubscribers c))" "distinct (map snd (audioSubscribers c))"
  using assms by (simp_all add: tables_ok_iff)

lemma tables_ok_open:
  assumes "tables_ok c" and "ch \<in> snd ` set (frameSubscribers c) \<union> snd ` set (audioSubscribers c)"
  shows "ch < length (chans c)" "\<not> closed (chans c ! ch)"
  using tables_ok_valid [OF assms(1)] assms(2) by blast+

lemma tables_ok_grow:
  assumes ok: "tables_ok c"
    and F: "distinct (map fst F)" "distinct (map snd F)"
      "snd ` set F \<subseteq> insert (length (chans c)) (snd ` set (frameSubscribers c))"
    and A: "distinct (map fst A)" "distinct (map snd A)"
      "snd ` set A \<subseteq> insert (length (chans c)) (snd ` set (audioSubscribers c))"
    and one: "length (chans c) \<notin> snd ` set F \<or> length (chans c) \<notin> snd ` set A"
    and q: "\<not> closed q"
  shows "tables_ok (c\<lparr>chans := chans c @ [q], frameSubscribers := F, audioSubscribers := A\<rparr>)"
proof -
  have old: "b < length (chans c) \<and> \<not> closed (chans c ! b)"
    if "b \<in> snd ` set (frameSubscribers c) \<union> snd ` set (audioSubscribers c)" for b
    using tables_ok_open [OF ok that] by simp
  have disj: "snd ` set F \<inter> snd ` set A = {}"
  proof (rule ccontr)
    assume "snd ` set F \<inter> snd ` set A \<noteq> {}"
    then obtain b where b: "b \<in> snd ` set F" "b \<in> snd ` set A"
      by blast
    show False
    proof (cases "b = length (chans c)")
      case True
      with b one show False by auto
    next
      case False
      with b F(3) A(3) have "b \<in> snd ` set (frameSubscribers c) \<inter> snd ` set (audioSubscribers c)"
        by blast
      with tables_ok_disjoint [OF ok] show False
        by blast
    qed
  qed
  have valid: "b < length (chans c @ [q]) \<and> \<not> closed ((chans c @ [q]) ! b)"
    if "b \<in> snd ` set F \<union> snd ` set A" for b
  proof (cases "b = length (chans c)")
    case True
    with q show ?thesis by simp
  next
    case False
    with that F(3) A(3) have "b \<in> snd ` set (frameSubscribers c) \<union> snd ` set (audioSubscribers c)"
      by blast
    from old [OF this] show ?thesis
      by (simp add: nth_append)
  qed
  have "\<forall>ch \<in> snd ` set F \<union> snd ` set A. ch < length (chans c @ [q]) \<and> \<not> closed ((chans c @ [q]) ! ch)"
    using valid by blast
  then show ?thesis
    unfolding tables_ok_iff by (simp add: F(1,2) A(1,2) disj)
qed

lemma fresh_channel:
  assumes "tables_ok c"
  shows "length (chans c) \<notin> snd ` set (frameSubscribers c)"
    "length (chans c) \<notin> snd ` set (audioSubscribers c)"
  using tables_ok_open(1) [OF assms, of "length (chans c)"] by auto

lemma tables_ok_SubscribeFrames:
  assumes "tables_ok c"
  shows "tables_ok (snd (SubscribeFrames c sid))"
proof -
  let ?ch = "length (chans c)"
  let ?F = "AList.update sid ?ch (frameSubscribers c)"
  note k = tables_ok_keys [OF assms] and fresh = fresh_channel [OF assms]
  have "tables_ok (c\<lparr>chans := chans c @ [\<lparr>cap = 30, buf = [], closed = False\<rparr>],
                     frameSubscribers := ?F, audioSubscribers := audioSubscribers c\<rparr>)"
  proof (rule tables_ok_grow [OF assms])
    show "distinct (map fst ?F)" using k(1) by (rule distinct_update)
    show "distinct (map snd ?F)" using k(2) fresh(1) by (rule distinct_update_values)
    show "snd ` set ?F \<subseteq> insert ?ch (snd ` set (frameSubscribers c))" by (rule update_values)
    show "distinct (map fst (audioSubscribers c))" "distinct (map snd (audioSubscribers c))"
      by (rule k)+
    show "snd ` set (audioSubscribers c) \<subseteq> insert ?ch (snd ` set (audioSubscribers c))" by blast
    show "?ch \<notin> snd ` set ?F \<or> ?ch \<notin> snd ` set (audioSubscribers c)" using fresh(2) by simp
    show "\<not> closed \<lparr>cap = 30, buf = [], closed = False\<rparr>" by simp
  qed
  then show ?thesis
    by (simp add: SubscribeFrames_def makeChan_def)
qed

lemma tables_ok_SubscribeAudio:
  assumes "tables_ok c"
  shows "tables_ok (snd (SubscribeAudio c sid))"
proof -
  let ?ch = "length (chans c)"
  let ?A = "AList.update sid ?ch (audioSubscribers c)"
  note k = tables_ok_keys [OF assms] and fresh = fresh_channel [OF assms]
  have "tables_ok (c\<lparr>chans := chans c @ [\<lparr>cap = 100, buf = [], closed = False\<rparr>],
                     frameSubscribers := frameSubscribers c, audioSubscribers := ?A\<rparr>)"
  proof (rule tables_ok_grow [OF assms])
    show "distinct (map fst ?A)" using k(3) by (rule distinct_update)
    show "distinct (map snd ?A)" using k(4) fresh(2) by (rule distinct_update_values)
    show "snd ` set ?A \<subseteq> insert ?ch (snd ` set (audioSubscribers c))" by (rule update_values)
    show "distinct (map fst (frameSubscribers c))" "distinct (map snd (frameSubscribers c))"
      by (rule k)+
    show "snd ` set (frameSubscribers c) \<subseteq> insert ?ch (snd ` set (frameSubscribers c))" by blast
    show "?ch \<notin> snd ` set (frameSubscribers c) \<or> ?ch \<notin> snd ` set ?A" using fresh(1) by simp
    show "\<not> closed \<lparr>cap = 100, buf = [], closed = False\<rparr>" by simp
  qed
  then show ?thesis
    by (simp add: SubscribeAudio_def makeChan_def)
qed

lemma UnsubscribeFrames_ok:
  assumes "tables_ok c"
  shows "\<exists>c'. UnsubscribeFrames c sid = Inr c' \<and> tables_ok c'"
proof (cases "map_of (frameSubscribers c) sid")
  case None
  with assms show ?thesis
    by (simp add: UnsubscribeFrames_def)
next
  case (Some ch)
  then have mem: "ch \<in> snd ` set (frameSubscribers c)"
    by (force dest: map_of_SomeD)
  note k = tables_ok_keys [OF assms]
  have op: "ch < length (chans c)" "\<not> closed (chans c ! ch)"
    using tables_ok_open [OF assms, of ch] mem by simp_all
  let ?h = "(chans c)[ch := (chans c ! ch)\<lparr>closed := True\<rparr>]"
  let ?F = "AList.delete sid (frameSubscribers c)"
  have res: "UnsubscribeFrames c sid = Inr (c\<lparr>chans := ?h, frameSubscribers := ?F\<rparr>)"
    using Some op by (simp add: UnsubscribeFrames_def closeChan_open)
  have gone: "ch \<notin> snd ` set ?F"
    using k(2) Some by (rule delete_removes_value)
  have notaudio: "ch \<notin> snd ` set (audioSubscribers c)"
    using tables_ok_disjoint [OF assms] mem by blast
  have "tables_ok (c\<lparr>chans := ?h, frameSubscribers := ?F,
                     audioSubscribers := audioSubscribers c\<rparr>)"
  proof (rule tables_ok_shrink [OF assms])
    show "distinct (map fst ?F)" using k(1) by (rule distinct_delete)
    show "distinct (map snd ?F)" using k(2) by (rule distinct_delete_values)
    show "snd ` set ?F \<subseteq> snd ` set (frameSubscribers c)" by (rule delete_values)
    show "distinct (map fst (audioSubscribers c))" "distinct (map snd (audioSubscribers c))"
      by (rule k)+
    show "snd ` set (audioSubscribers c) \<subseteq> snd ` set (audioSubscribers c)" by simp
    show "length ?h = length (chans c)" by simp
    show "\<not> closed (?h ! b)" if b: "b \<in> snd ` set ?F \<union> snd ` set (audioSubscribers c)" for b
    proof -
      from b gone notaudio have ne: "b \<noteq> ch" by blast
      from b delete_values [of sid "frameSubscribers c"]
      have "b \<in> snd ` set (frameSubscribers c) \<union> snd ` set (audioSubscribers c)" by blast
      from tables_ok_open(2) [OF assms this] ne show ?thesis by simp
    qed
  qed
  with res show ?thesis
    by simp
qed

lemma UnsubscribeAudio_ok:
  assumes "tables_ok c"
  shows "\<exists>c'. UnsubscribeAudio c sid = Inr c' \<and> tables_ok c'"
proof (cases "map_of (audioSubscribers c) sid")
  case None
  with assms show ?thesis
    by (simp add: UnsubscribeAudio_def)
next
  case (Some ch)
  then have mem: "ch \<in> snd ` set (audioSubscribers c)"
    by (force dest: map_of_SomeD)
  note k = tables_ok_keys [OF assms]
  have op: "ch < length (chans c)" "\<not> closed (chans c ! ch)"
    using tables_ok_open [OF assms, of ch] mem by simp_all
  let ?h = "(chans c)[ch := (chans c ! ch)\<lparr>closed := True\<rparr>]"
  let ?A = "AList.delete sid (audioSubscribers c)"
  have res: "UnsubscribeAudio c sid = Inr (c\<lparr>chans := ?h, audioSubscribers := ?A\<rparr>)"
    using Some op by (simp add: UnsubscribeAudio_def closeChan_open)
  have gone: "ch \<notin> snd ` set ?A"
    using k(4) Some by (rule delete_removes_value)
  have notframe: "ch \<notin> snd ` set (frameSubscribers c)"
    using tables_ok_disjoint [OF assms] mem by blast
  have "tables_ok (c\<lparr>chans := ?h, frameSubscribers := frameSubscribers c,
                     audioSubscribers := ?A\<rparr>)"
  proof (rule tables_ok_shrink [OF assms])
    show "distinct (map fst ?A)" using k(3) by (rule distinct_delete)
    show "distinct (map snd ?A)" using k(4) by (rule distinct_delete_values)
    show "snd ` set ?A \<subseteq> snd ` set (audioSubscribers c)" by (rule delete_values)
    show "distinct (map fst (frameSubscribers c))" "distinct (map snd (frameSubscribers c))"
      by (rule k)+
    show "snd ` set (frameSubscribers c) \<subseteq> snd ` set (frameSubscribers c)" by simp
    show "length ?h = length (chans c)" by simp
    show "\<not> closed (?h ! b)" if b: "b \<in> snd ` set (frameSubscribers c) \<union> snd ` set ?A" for b
    proof -
      from b gone notframe have ne: "b \<noteq> ch" by blast
      from b delete_values [of sid "audioSubscribers c"]
      have "b \<in> snd ` set (frameSubscribers c) \<union> snd ` set (audioSubscribers c)" by blast
      from tables_ok_open(2) [OF assms this] ne show ?thesis by simp
    qed
  qed
  with res show ?thesis
    by simp
qed


subsection \<open>Broadcasts\<close>

lemma broadcastFrame_ok:
  assumes "tables_ok c"
  shows "\<exists>h. broadcastFrame c x = Inr (c\<lparr>chans := h\<rparr>) \<and> tables_ok (c\<lparr>chans := h\<rparr>)
           \<and> length h = length (chans c)
           \<and> (\<forall>b < length (chans c). h ! b =
                 (if b \<in> snd ` set (frameSubscribers c)
                  then (chans c ! b)\<lparr>buf :=
                         (if length (buf (chans c ! b)) < cap (chans c ! b)
                          then buf (chans c ! b) @ [x]
                          else if buf (chans c ! b) = [] then []
                          else if length (tl (buf (chans c ! b))) < cap (chans c ! b)
                          then tl (buf (chans c ! b)) @ [x]
                          else tl (buf (chans c ! b)))\<rparr>
                  else chans c ! b))"
proof -
  let ?f = "\<lambda>q. if length (buf q) < cap q then buf q @ [x]
                 else if buf q = [] then []
                 else if length (tl (buf q)) < cap q then tl (buf q) @ [x]
                 else tl (buf q)"
  have send: "sendFrame h ch x = Inr (h[ch := (h ! ch)\<lparr>buf := ?f (h ! ch)\<rparr>])"
    if "ch < length h" "\<not> closed (h ! ch)" for h ch
    using sendFrame_open [OF that] by simp
  have op: "\<forall>ch \<in> snd ` set (frameSubscribers c). ch < length (chans c) \<and> \<not> closed (chans c ! ch)"
    using tables_ok_valid [OF assms] by blast
  from broadcastTo_open [of sendFrame x ?f, OF send tables_ok_keys(2) [OF assms] op]
  obtain h where h: "broadcastTo sendFrame (chans c) (frameSubscribers c) x = Inr h"
    "length h = length (chans c)"
    "\<forall>b < length (chans c). h ! b =
       (if b \<in> snd ` set (frameSubscribers c) then (chans c ! b)\<lparr>buf := ?f (chans c ! b)\<rparr>
        else chans c ! b)"
    by blast
  have ok: "tables_ok (c\<lparr>chans := h\<rparr>)"
  proof -
    have "\<not> closed (h ! b)"
      if "b \<in> snd ` set (frameSubscribers c) \<union> snd ` set (audioSubscribers c)" for b
      using tables_ok_open [OF assms that] h(3) by simp
    with tables_ok_shrink [OF assms tables_ok_keys(1,2) [OF assms] subset_refl
        tables_ok_keys(3,4) [OF assms] subset_refl h(2)]
    show ?thesis
      by simp
  qed
  have "broadcastFrame c x = Inr (c\<lparr>chans := h\<rparr>)"
    using h(1) by (simp add: broadcastFrame_def)
  with ok h(2,3) show ?thesis
    by blast
qed

lemma broadcastAudio_ok:
  assumes "tables_ok c"
  shows "\<exists>h. broadcastAudio c x = Inr (c\<lparr>chans := h\<rparr>) \<and> tables_ok (c\<lparr>chans := h\<rparr>)
           \<and> length h = length (chans c)
           \<and> (\<forall>b < length (chans c). h ! b =
                 (if b \<in> snd ` set (audioSubscribers c)
                  then (chans c ! b)\<lparr>buf :=
                         (if length (buf (chans c ! b)) < cap (chans c ! b)
                          then buf (chans c ! b) @ [x]
                          else buf (chans c ! b))\<rparr>
                  else chans c ! b))"
proof -
  let ?f = "\<lambda>q. if length (buf q) < cap q then buf q @ [x] else buf q"
  have send: "sendAudio h ch x = Inr (h[ch := (h ! ch)\<lparr>buf := ?f (h ! ch)\<rparr>])"
    if "ch < length h" "\<not> closed (h ! ch)" for h ch
    using sendAudio_open [OF that] by simp
  have op: "\<forall>ch \<in> snd ` set (audioSubscribers c). ch < length (chans c) \<and> \<not> closed (chans c ! ch)"
    using tables_ok_valid [OF assms] by blast
  from broadcastTo_open [of sendAudio x ?f, OF send tables_ok_keys(4) [OF assms] op]
  obtain h where h: "broadcastTo sendAudio (chans c) (audioSubscribers c) x = Inr h"
    "length h = length (chans c)"
    "\<forall>b < length (chans c). h ! b =
       (if b \<in> snd ` set (audioSubscribers c) then (chans c ! b)\<lparr>buf := ?f (chans c ! b)\<rparr>
        else chans c ! b)"
    by blast
  have ok: "tables_ok (c\<lparr>chans := h\<rparr>)"
  proof -
    have "\<not> closed (h ! b)"
      if "b \<in> snd ` set (frameSubscribers c) \<union> snd ` set (audioSubscribers c)" for b
      using tables_ok_open [OF assms that] h(3) by simp
    with tables_ok_shrink [OF assms tables_ok_keys(1,2) [OF assms] subset_refl
        tables_ok_keys(3,4) [OF assms] subset_refl h(2)]
    show ?thesis
      by simp
  qed
  have "broadcastAudio c x = Inr (c\<lparr>chans := h\<rparr>)"
    using h(1) by (simp add: broadcastAudio_def)
  with ok h(2,3) show ?thesis
    by blast
qed

lemma tables_ok_fields:
  assumes "tables_ok c"
    and "frameSubscribers c' = frameSubscribers c" "audioSubscribers c' = audioSubscribers c"
    and "chans c' = chans c"
  shows "tables_ok c'"
  using assms by (simp add: tables_ok_def)

lemma publishFrame_ok:
  assumes "tables_ok c"
  shows "\<exists>c'. publishFrame c x = Inr c' \<and> tables_ok c'"
proof -
  have "tables_ok (c\<lparr>lastFrame := Some x\<rparr>)"
    using assms by (rule tables_ok_fields) simp_all
  from broadcastFrame_ok [OF this, of x] show ?thesis
    unfolding publishFrame_def by blast
qed

subsection \<open>Stopping\<close>

lemma stopCloseFrames_ok:
  assumes "tables_ok c"
  shows "\<exists>h. stopCloseFrames c = Inr (c\<lparr>chans := h, frameSubscribers := []\<rparr>)
           \<and> tables_ok (c\<lparr>chans := h, frameSubscribers := []\<rparr>)
           \<and> length h = length (chans c)
           \<and> (\<forall>b < length (chans c). h ! b =
                 (if b \<in> snd ` set (frameSubscribers c) then (chans c ! b)\<lparr>closed := True\<rparr>
                  else chans c ! b))"
proof -
  have op: "\<forall>ch \<in> snd ` set (frameSubscribers c). ch < length (chans c) \<and> \<not> closed (chans c ! ch)"
    using tables_ok_valid [OF assms] by blast
  from closeAll_open [OF tables_ok_keys(1,2) [OF assms] op]
  obtain h where h: "closeAll (chans c) (frameSubscribers c) = Inr (h, [])"
    "length h = length (chans c)"
    "\<forall>b < length (chans c). h ! b =
       (if b \<in> snd ` set (frameSubscribers c) then (chans c ! b)\<lparr>closed := True\<rparr>
        else chans c ! b)"
    by blast
  have "tables_ok (c\<lparr>chans := h, frameSubscribers := [], audioSubscribers := audioSubscribers c\<rparr>)"
  proof (rule tables_ok_shrink [OF assms _ _ _ tables_ok_keys(3,4) [OF assms] subset_refl h(2)])
    show "distinct (map fst ([] :: subs))" "distinct (map snd ([] :: subs))"
      "snd ` set ([] :: subs) \<subseteq> snd ` set (frameSubscribers c)"
      by simp_all
    show "\<not> closed (h ! b)" if "b \<in> snd ` set ([] :: subs) \<union> snd ` set (audioSubscribers c)" for b
    proof -
      from that have a: "b \<in> snd ` set (audioSubscribers c)" by simp
      with tables_ok_disjoint [OF assms] have "b \<notin> snd ` set (frameSubscribers c)" by blast
      moreover from a tables_ok_valid [OF assms]
      have "b < length (chans c)" "\<not> closed (chans c ! b)" by blast+
      ultimately show ?thesis using h(3) by simp
    qed
  qed
  then have ok: "tables_ok (c\<lparr>chans := h, frameSubscribers := []\<rparr>)"
    by simp
  have "stopCloseFrames c = Inr (c\<lparr>chans := h, frameSubscribers := []\<rparr>)"
    using h(1) by (simp add: stopCloseFrames_def)
  with ok h(2,3) show ?thesis
    by blast
qed

lemma stopCloseAudio_ok:
  assumes "tables_ok c"
  shows "\<exists>h. stopCloseAudio c = Inr (c\<lparr>chans := h, audioSubscribers := []\<rparr>)
           \<and> tables_ok (c\<lparr>chans := h, audioSubscribers := []\<rparr>)
           \<and> length h = length (chans c)
           \<and> (\<forall>b < length (chans c). h ! b =
                 (if b \<in> snd ` set (audioSubscribers c) then (chans c ! b)\<lparr>closed := True\<rparr>
                  else chans c ! b))"
proof -
  have op: "\<forall>ch \<in> snd ` set (audioSubscribers c). ch < length (chans c) \<and> \<not> closed (chans c ! ch)"
    using tables_ok_valid [OF assms] by blast
  from closeAll_open [OF tables_ok_keys(3,4) [OF assms] op]
  obtain h where h: "closeAll (chans c) (audioSubscribers c) = Inr (h, [])"
    "length h = length (chans c)"
    "\<forall>b < length (chans c). h ! b =
       (if b \<in> snd ` set (audioSubscribers c) then (chans c ! b)\<lparr>closed := True\<rparr>
        else chans c ! b)"
    by blast
  have "tables_ok (c\<lparr>chans := h, frameSubscribers := frameSubscribers c, audioSubscribers := []\<rparr>)"
  proof (rule tables_ok_shrink [OF assms tables_ok_keys(1,2) [OF assms] subset_refl _ _ _ h(2)])
    show "distinct (map fst ([] :: subs))" "distinct (map snd ([] :: subs))"
      "snd ` set ([] :: subs) \<subseteq> snd ` set (audioSubscribers c)"
      by simp_all
    show "\<not> closed (h ! b)" if "b \<in> snd ` set (frameSubscribers c) \<union> snd ` set ([] :: subs)" for b
    proof -
      from that have a: "b \<in> snd ` set (frameSubscribers c)" by simp
      with tables_ok_disjoint [OF assms] have "b \<notin> snd ` set (audioSubscribers c)" by blast
      moreover from a tables_ok_valid [OF assms]
      have "b < length (chans c)" "\<not> closed (chans c ! b)" by blast+
      ultimately show ?thesis using h(3) by simp
    qed
  qed
  then have ok: "tables_ok (c\<lparr>chans := h, audioSubscribers := []\<rparr>)"
    by simp
  have "stopCloseAudio c = Inr (c\<lparr>chans := h, audioSubscribers := []\<rparr>)"
    using h(1) by (simp add: stopCloseAudio_def)
  with ok h(2,3) show ?thesis
    by blast
qed


lemma Stop_not_running: "\<not> running c \<Longrightarrow> Stop c = Inr c"
  by (simp add: Stop_def)

lemma Stop_ok:
  assumes ok: "tables_ok c" and run: "running c"
  shows "\<exists>h. Stop c = Inr (c\<lparr>cmd := False, running := False, chans := h,
                              frameSubscribers := [], audioSubscribers := []\<rparr>)
           \<and> tables_ok (c\<lparr>cmd := False, running := False, chans := h,
                              frameSubscribers := [], audioSubscribers := []\<rparr>)
           \<and> length h = length (chans c)
           \<and> (\<forall>b < length (chans c). h ! b =
                 (if b \<in> snd ` set (frameSubscribers c) \<union> snd ` set (audioSubscribers c)
                  then (chans c ! b)\<lparr>closed := True\<rparr> else chans c ! b))"
proof -
  let ?c0 = "stopCapture c"
  have ok0: "tables_ok ?c0"
    using ok by (rule tables_ok_fields) (simp_all add: stopCapture_def)
  from stopCloseFrames_ok [OF ok0] obtain h1 where h1:
    "stopCloseFrames ?c0 = Inr (?c0\<lparr>chans := h1, frameSubscribers := []\<rparr>)"
    "tables_ok (?c0\<lparr>chans := h1, frameSubscribers := []\<rparr>)"
    "length h1 = length (chans c)"
    "\<forall>b < length (chans c). h1 ! b =
       (if b \<in> snd ` set (frameSubscribers c) then (chans c ! b)\<lparr>closed := True\<rparr>
        else chans c ! b)"
    by (auto simp: stopCapture_def)
  let ?c1 = "?c0\<lparr>chans := h1, frameSubscribers := []\<rparr>"
  from stopCloseAudio_ok [OF h1(2)] obtain h2 where h2:
    "stopCloseAudio ?c1 = Inr (?c1\<lparr>chans := h2, audioSubscribers := []\<rparr>)"
    "tables_ok (?c1\<lparr>chans := h2, audioSubscribers := []\<rparr>)"
    "length h2 = length h1"
    "\<forall>b < length h1. h2 ! b =
       (if b \<in> snd ` set (audioSubscribers c) then (h1 ! b)\<lparr>closed := True\<rparr> else h1 ! b)"
    by (auto simp: stopCapture_def)
  let ?c' = "c\<lparr>cmd := False, running := False, chans := h2,
               frameSubscribers := [], audioSubscribers := []\<rparr>"
  have eq: "stopFinish (?c1\<lparr>chans := h2, audioSubscribers := []\<rparr>) = ?c'"
    by (simp add: stopFinish_def stopCapture_def)
  have res: "Stop c = Inr ?c'"
    using run h1(1) h2(1) eq by (simp add: Stop_def)
  have ok': "tables_ok ?c'"
    using h2(2) by (rule tables_ok_fields) (simp_all add: stopCapture_def)
  have pt: "h2 ! b = (if b \<in> snd ` set (frameSubscribers c) \<union> snd ` set (audioSubscribers c)
                  then (chans c ! b)\<lparr>closed := True\<rparr> else chans c ! b)"
    if "b < length (chans c)" for b
  proof -
    have "\<not> (b \<in> snd ` set (frameSubscribers c) \<and> b \<in> snd ` set (audioSubscribers c))"
      using tables_ok_disjoint [OF ok] by blast
    then show ?thesis
      using h1(3,4) h2(4) that by auto
  qed
  from res ok' h2(3) h1(3) pt show ?thesis
    by (intro exI [of _ h2]) simp
qed

subsection \<open>Any interleaving of the atomic steps\<close>

lemma tryRecv_tables_ok:
  assumes "tables_ok c"
  shows "tables_ok (c\<lparr>chans := snd (tryRecv (chans c) ch)\<rparr>)"
proof -
  let ?h = "snd (tryRecv (chans c) ch)"
  have len: "length ?h = length (chans c)"
    by (simp add: tryRecv_def split: list.splits)
  have cl: "closed (?h ! b) = closed (chans c ! b)" if "b < length (chans c)" for b
    using that by (simp add: tryRecv_def nth_list_update split: list.splits)
  have "tables_ok (c\<lparr>chans := ?h, frameSubscribers := frameSubscribers c,
                      audioSubscribers := audioSubscribers c\<rparr>)"
  proof (rule tables_ok_shrink [OF assms tables_ok_keys(1,2) [OF assms] subset_refl
        tables_ok_keys(3,4) [OF assms] subset_refl len])
    fix b assume b: "b \<in> snd ` set (frameSubscribers c) \<union> snd ` set (audioSubscribers c)"
    from tables_ok_open [OF assms b] cl show "\<not> closed (?h ! b)"
      by simp
  qed
  then show ?thesis
    by simp
qed

lemma step_ok:
  assumes "tables_ok c"
  shows "\<exists>c'. step c a = Inr c' \<and> tables_ok c'"
proof (cases a)
  case (DoSubscribeFrames sid)
  then show ?thesis using tables_ok_SubscribeFrames [OF assms] by simp
next
  case (DoUnsubscribeFrames sid)
  then show ?thesis using UnsubscribeFrames_ok [OF assms] by simp
next
  case (DoSubscribeAudio sid)
  then show ?thesis using tables_ok_SubscribeAudio [OF assms] by simp
next
  case (DoUnsubscribeAudio sid)
  then show ?thesis using UnsubscribeAudio_ok [OF assms] by simp
next
  case (DoBroadcastFrame x)
  then show ?thesis using publishFrame_ok [OF assms] by simp
next
  case (DoBroadcastAudio x)
  then show ?thesis using broadcastAudio_ok [OF assms, of x] by auto
next
  case (DoStart env)
  have "tables_ok (snd (Start c env))"
    using assms by (rule tables_ok_fields) (simp_all add: Start_def split: spawn_env.splits)
  with DoStart show ?thesis by simp
next
  case DoStopCapture
  have "tables_ok (stopCapture c)"
    using assms by (rule tables_ok_fields) (simp_all add: stopCapture_def)
  with DoStopCapture show ?thesis by simp
next
  case DoStopCloseFrames
  then show ?thesis using stopCloseFrames_ok [OF assms] by auto
next
  case DoStopCloseAudio
  then show ?thesis using stopCloseAudio_ok [OF assms] by auto
next
  case DoStopFinish
  have "tables_ok (stopFinish c)"
    using assms by (rule tables_ok_fields) (simp_all add: stopFinish_def)
  with DoStopFinish show ?thesis by simp
next
  case DoStop
  show ?thesis
  proof (cases "running c")
    case True
    from Stop_ok [OF assms True] DoStop show ?thesis by auto
  next
    case False
    with DoStop assms show ?thesis by (simp add: Stop_not_running)
  qed
next
  case (DoReceive ch)
  then show ?thesis using tryRecv_tables_ok [OF assms, of ch] by simp
qed

lemma run_ok:
  "tables_ok c \<Longrightarrow> \<exists>c'. run c acts = Inr c' \<and> tables_ok c'"
proof (induction acts arbitrary: c)
  case Nil
  then show ?case by simp
next
  case (Cons a acts)
  from step_ok [OF Cons.prems, of a] obtain c1 where c1: "step c a = Inr c1" "tables_ok c1"
    by blast
  from Cons.IH [OF c1(2)] c1(1) show ?case
    by simp
qed

lemma awaitFrame_cases:
  "fst (awaitFrame h ch t) = Inl TimeoutError \<or> fst (awaitFrame h ch t) = Inr None
     \<or> (\<exists>f. fst (awaitFrame h ch t) = Inr (Some f))"
  by (simp add: awaitFrame_def split: prod.splits recv.splits)

lemma awaitFrame_heap:
  "snd (awaitFrame h ch t) = h \<or> snd (awaitFrame h ch t) = snd (tryRecv h ch)"
  by (simp add: awaitFrame_def split: prod.splits recv.splits)

lemma awaitFrame_tables_ok:
  assumes "tables_ok c"
  shows "tables_ok (c\<lparr>chans := snd (awaitFrame (chans c) ch t)\<rparr>)"
proof -
  from awaitFrame_heap [of "chans c" ch t] show ?thesis
  proof
    assume "snd (awaitFrame (chans c) ch t) = chans c"
    with assms show ?thesis by simp
  next
    assume "snd (awaitFrame (chans c) ch t) = snd (tryRecv (chans c) ch)"
    with tryRecv_tables_ok [OF assms, of ch] show ?thesis by simp
  qed
qed

lemma UnsubscribeFrames_absent:
  "map_of (frameSubscribers c) sid = None \<Longrightarrow> UnsubscribeFrames c sid = Inr c"
  by (simp add: UnsubscribeFrames_def)

lemma UnsubscribeAudio_absent:
  "map_of (audioSubscribers c) sid = None \<Longrightarrow> UnsubscribeAudio c sid = Inr c"
  by (simp add: UnsubscribeAudio_def)

lemma UnsubscribeFrames_twice:
  assumes "tables_ok c"
  shows "\<exists>c1. UnsubscribeFrames c sid = Inr c1 \<and> UnsubscribeFrames c1 sid = Inr c1
           \<and> map_of (frameSubscribers c1) sid = None"
proof (cases "map_of (frameSubscribers c) sid")
  case None
  then show ?thesis by (simp add: UnsubscribeFrames_absent)
next
  case (Some ch)
  then have "ch \<in> snd ` set (frameSubscribers c) \<union> snd ` set (audioSubscribers c)"
    by (force dest: map_of_SomeD)
  from tables_ok_open [OF assms this] Some
  have "UnsubscribeFrames c sid =
          Inr (c\<lparr>chans := (chans c)[ch := (chans c ! ch)\<lparr>closed := True\<rparr>],
                 frameSubscribers := AList.delete sid (frameSubscribers c)\<rparr>)"
    by (simp add: UnsubscribeFrames_def closeChan_open)
  moreover have "map_of (AList.delete sid (frameSubscribers c)) sid = None"
    by (simp add: delete_conv')
  ultimately show ?thesis
    by (simp add: UnsubscribeFrames_absent)
qed

lemma UnsubscribeAudio_twice:
  assumes "tables_ok c"
  shows "\<exists>c1. UnsubscribeAudio c sid = Inr c1 \<and> UnsubscribeAudio c1 sid = Inr c1
           \<and> map_of (audioSubscribers c1) sid = None"
proof (cases "map_of (audioSubscribers c) sid")
  case None
  then show ?thesis by (simp add: UnsubscribeAudio_absent)
next
  case (Some ch)
  then have "ch \<in> snd ` set (frameSubscribers c) \<union> snd ` set (audioSubscribers c)"
    by (force dest: map_of_SomeD)
  from tables_ok_open [OF assms this] Some
  have "UnsubscribeAudio c sid =
          Inr (c\<lparr>chans := (chans c)[ch := (chans c ! ch)\<lparr>closed := True\<rparr>],
                 audioSubscribers := AList.delete sid (audioSubscribers c)\<rparr>)"
    by (simp add: UnsubscribeAudio_def closeChan_open)
  moreover have "map_of (AList.delete sid (audioSubscribers c)) sid = None"
    by (simp add: delete_conv')
  ultimately show ?thesis
    by (simp add: UnsubscribeAudio_absent)
qed

subsection \<open>Unfolding the operations on concrete inputs\<close>

lemmas eval_defs = NewAVCapturer_def Start_def SubscribeFrames_def SubscribeAudio_def makeChan_def
  UnsubscribeFrames_def UnsubscribeAudio_def closeChan_def Stop_def stopCapture_def
  stopCloseFrames_def stopCloseAudio_def stopFinish_def publishFrame_def broadcastFrame_def
  broadcastAudio_def sendFrame_def sendAudio_def trySend_def tryRecv_def

subsection \<open>Closing queues\<close>

text \<open>
  A subscription made between the two closing loops of \<open>Stop\<close> outlives the call: the
  capturer ends up stopped with the late subscriber stored and its channel open.
\<close>

lemma stop_late_subscribe:
  "run (NewAVCapturer cam1)
     [DoStart SpawnOk, DoStopCapture, DoStopCloseFrames, DoSubscribeFrames ''late'',
      DoStopCloseAudio, DoStopFinish] =
   Inr \<lparr>config = cam1, cmd = False, spawned = 1, running = False, lastFrame = None,
        frameSubscribers = [(''late'', 0)], audioSubscribers = [],
        chans = [\<lparr>cap = 30, buf = [], closed = False\<rparr>]\<rparr>"
  by (simp add: eval_defs)

text \<open>
  Claim C9. In every state that any sequence of the atomic steps reaches from a new
  capturer, no step has panicked (a second close of a channel is a panic), and the tables
  store only open channels. From such a state, when the capturer is running, \<open>Stop\<close>
  returns with both tables empty, every channel that was stored closed by it and every
  other channel as it was, and a second \<open>Stop\<close> changes nothing; when the capturer is not
  running, \<open>Stop\<close> changes nothing, whatever the tables hold; unsubscribing an id that
  is not stored changes nothing; and unsubscribing twice is unsubscribing once.
\<close>

theorem stop_and_unsubscribe_close_once:
  "\<exists>c. run (NewAVCapturer cfg) acts = Inr c \<and> tables_ok c
     \<and> (running c \<longrightarrow>
          (\<exists>c'. Stop c = Inr c' \<and> frameSubscribers c' = [] \<and> audioSubscribers c' = []
             \<and> \<not> running c' \<and> length (chans c') = length (chans c)
             \<and> (\<forall>b < length (chans c). chans c' ! b =
                   (if b \<in> snd ` set (frameSubscribers c) \<union> snd ` set (audioSubscribers c)
                    then (chans c ! b)\<lparr>closed := True\<rparr> else chans c ! b))
             \<and> Stop c' = Inr c'))
     \<and> (\<not> running c \<longrightarrow> Stop c = Inr c)
     \<and> (map_of (frameSubscribers c) sid = None \<longrightarrow> UnsubscribeFrames c sid = Inr c)
     \<and> (map_of (audioSubscribers c) sid = None \<longrightarrow> UnsubscribeAudio c sid = Inr c)
     \<and> (\<exists>c1. UnsubscribeFrames c sid = Inr c1 \<and> UnsubscribeFrames c1 sid = Inr c1)
     \<and> (\<exists>c1. UnsubscribeAudio c sid = Inr c1 \<and> UnsubscribeAudio c1 sid = Inr c1)"
proof -
  from run_ok [OF tables_ok_New, of cfg acts]
  obtain c where c: "run (NewAVCapturer cfg) acts = Inr c" "tables_ok c"
    by blast
  have stop: "\<exists>c'. Stop c = Inr c' \<and> frameSubscribers c' = [] \<and> audioSubscribers c' = []
             \<and> \<not> running c' \<and> length (chans c') = length (chans c)
             \<and> (\<forall>b < length (chans c). chans c' ! b =
                   (if b \<in> snd ` set (frameSubscribers c) \<union> snd ` set (audioSubscribers c)
                    then (chans c ! b)\<lparr>closed := True\<rparr> else chans c ! b))
             \<and> Stop c' = Inr c'"
    if r: "running c"
  proof -
    from Stop_ok [OF c(2) r] obtain h where h:
      "Stop c = Inr (c\<lparr>cmd := False, running := False, chans := h,
                       frameSubscribers := [], audioSubscribers := []\<rparr>)"
      "length h = length (chans c)"
      "\<forall>b < length (chans c). h ! b =
         (if b \<in> snd ` set (frameSubscribers c) \<union> snd ` set (audioSubscribers c)
          then (chans c ! b)\<lparr>closed := True\<rparr> else chans c ! b)"
      by blast
    let ?c' = "c\<lparr>cmd := False, running := False, chans := h,
                 frameSubscribers := [], audioSubscribers := []\<rparr>"
    have "Stop ?c' = Inr ?c'"
      by (rule Stop_not_running) simp
    with h show ?thesis
      by (intro exI [of _ ?c']) simp
  qed
  from UnsubscribeFrames_twice [OF c(2), of sid] UnsubscribeAudio_twice [OF c(2), of sid]
  have twice: "\<exists>c1. UnsubscribeFrames c sid = Inr c1 \<and> UnsubscribeFrames c1 sid = Inr c1"
    "\<exists>c1. UnsubscribeAudio c sid = Inr c1 \<and> UnsubscribeAudio c1 sid = Inr c1"
    by blast+
  from c stop twice show ?thesis
    by (intro exI [of _ c])
      (simp add: UnsubscribeFrames_absent UnsubscribeAudio_absent Stop_not_running)
qed

theorem stop_and_unsubscribe_close_once_witness:
  "(\<exists>c. run (NewAVCapturer cam1)
          [DoStart SpawnOk, DoSubscribeFrames ''viewer'', DoSubscribeAudio ''viewer'',
           DoSubscribeFrames ''recorder'', DoUnsubscribeFrames ''recorder''] = Inr c
     \<and> running c
     \<and> frameSubscribers c = [(''viewer'', 0)] \<and> audioSubscribers c = [(''viewer'', 1)]
     \<and> map closed (chans c) = [False, False, True]
     \<and> UnsubscribeFrames c ''recorder'' = Inr c
     \<and> (\<exists>c'. Stop c = Inr c' \<and> frameSubscribers c' = [] \<and> audioSubscribers c' = []
           \<and> closed (chans c' ! 0) \<and> closed (chans c' ! 1) \<and> chans c' ! 2 = chans c ! 2
           \<and> Stop c' = Inr c'))
   \<and> (\<exists>c. run (NewAVCapturer cam1)
          [DoSubscribeFrames ''viewer'', DoSubscribeAudio ''viewer''] = Inr c
     \<and> \<not> running c
     \<and> frameSubscribers c = [(''viewer'', 0)] \<and> audioSubscribers c = [(''viewer'', 1)]
     \<and> Stop c = Inr c
     \<and> UnsubscribeAudio c ''recorder'' = Inr c)"
proof -
  let ?acts = "[DoStart SpawnOk, DoSubscribeFrames ''viewer'', DoSubscribeAudio ''viewer'',
           DoSubscribeFrames ''recorder'', DoUnsubscribeFrames ''recorder'']"
  from stop_and_unsubscribe_close_once [of cam1 ?acts "''recorder''"]
  obtain c where all: "run (NewAVCapturer cam1) ?acts = Inr c \<and> tables_ok c
     \<and> (running c \<longrightarrow>
          (\<exists>c'. Stop c = Inr c' \<and> frameSubscribers c' = [] \<and> audioSubscribers c' = []
             \<and> \<not> running c' \<and> length (chans c') = length (chans c)
             \<and> (\<forall>b < length (chans c). chans c' ! b =
                   (if b \<in> snd ` set (frameSubscribers c) \<union> snd ` set (audioSubscribers c)
                    then (chans c ! b)\<lparr>closed := True\<rparr> else chans c ! b))
             \<and> Stop c' = Inr c'))
     \<and> (\<not> running c \<longrightarrow> Stop c = Inr c)
     \<and> (map_of (frameSubscribers c) ''recorder'' = None
          \<longrightarrow> UnsubscribeFrames c ''recorder'' = Inr c)
     \<and> (map_of (audioSubscribers c) ''recorder'' = None
          \<longrightarrow> UnsubscribeAudio c ''recorder'' = Inr c)
     \<and> (\<exists>c1. UnsubscribeFrames c ''recorder'' = Inr c1 \<and> UnsubscribeFrames c1 ''recorder'' = Inr c1)
     \<and> (\<exists>c1. UnsubscribeAudio c ''recorder'' = Inr c1 \<and> UnsubscribeAudio c1 ''recorder'' = Inr c1)"
    ..
  note c = all [THEN conjunct1]
    and stop = all [THEN conjunct2, THEN conjunct2, THEN conjunct1]
    and absent = all [THEN conjunct2, THEN conjunct2, THEN conjunct2, THEN conjunct2,
        THEN conjunct1]
  have "run (NewAVCapturer cam1) ?acts =
      Inr \<lparr>config = cam1, cmd = True, spawned = 1, running = True, lastFrame = None,
           frameSubscribers = [(''viewer'', 0)], audioSubscribers = [(''viewer'', 1)],
           chans = [\<lparr>cap = 30, buf = [], closed = False\<rparr>, \<lparr>cap = 100, buf = [], closed = False\<rparr>,
                    \<lparr>cap = 30, buf = [], closed = True\<rparr>]\<rparr>"
    by (simp add: eval_defs)
  with c have ceq: "c = \<lparr>config = cam1, cmd = True, spawned = 1, running = True, lastFrame = None,
           frameSubscribers = [(''viewer'', 0)], audioSubscribers = [(''viewer'', 1)],
           chans = [\<lparr>cap = 30, buf = [], closed = False\<rparr>, \<lparr>cap = 100, buf = [], closed = False\<rparr>,
                    \<lparr>cap = 30, buf = [], closed = True\<rparr>]\<rparr>"
    by simp
  have facts: "running c" "frameSubscribers c = [(''viewer'', 0)]"
    "audioSubscribers c = [(''viewer'', 1)]" "map closed (chans c) = [False, False, True]"
    "length (chans c) = 3" "map_of (frameSubscribers c) ''recorder'' = None"
    by (simp_all add: ceq)
  from stop [rule_format, OF facts(1)]
  obtain c' where c': "Stop c = Inr c' \<and> frameSubscribers c' = [] \<and> audioSubscribers c' = []
             \<and> \<not> running c' \<and> length (chans c') = length (chans c)
             \<and> (\<forall>b < length (chans c). chans c' ! b =
                   (if b \<in> snd ` set (frameSubscribers c) \<union> snd ` set (audioSubscribers c)
                    then (chans c ! b)\<lparr>closed := True\<rparr> else chans c ! b))
             \<and> Stop c' = Inr c'"
    ..
  then have pt: "\<forall>b < length (chans c). chans c' ! b =
                   (if b \<in> snd ` set (frameSubscribers c) \<union> snd ` set (audioSubscribers c)
                    then (chans c ! b)\<lparr>closed := True\<rparr> else chans c ! b)"
    by simp
  have cl: "closed (chans c' ! 0)" "closed (chans c' ! 1)" "chans c' ! 2 = chans c ! 2"
    using pt facts(2,3,5) by simp_all
  have "Stop c = Inr c' \<and> frameSubscribers c' = [] \<and> audioSubscribers c' = []
           \<and> closed (chans c' ! 0) \<and> closed (chans c' ! 1) \<and> chans c' ! 2 = chans c ! 2
           \<and> Stop c' = Inr c'"
    using c' cl by simp
  then have ex: "\<exists>c'. Stop c = Inr c' \<and> frameSubscribers c' = [] \<and> audioSubscribers c' = []
           \<and> closed (chans c' ! 0) \<and> closed (chans c' ! 1) \<and> chans c' ! 2 = chans c ! 2
           \<and> Stop c' = Inr c'"
    ..
  from absent facts(6) have unsub: "UnsubscribeFrames c ''recorder'' = Inr c"
    by simp
  have "run (NewAVCapturer cam1) ?acts = Inr c
     \<and> running c
     \<and> frameSubscribers c = [(''viewer'', 0)] \<and> audioSubscribers c = [(''viewer'', 1)]
     \<and> map closed (chans c) = [False, False, True]
     \<and> UnsubscribeFrames c ''recorder'' = Inr c
     \<and> (\<exists>c'. Stop c = Inr c' \<and> frameSubscribers c' = [] \<and> audioSubscribers c' = []
           \<and> closed (chans c' ! 0) \<and> closed (chans c' ! 1) \<and> chans c' ! 2 = chans c ! 2
           \<and> Stop c' = Inr c')"
    using c facts(1-4) unsub ex by (intro conjI) assumption+
  then have first: "\<exists>c. run (NewAVCapturer cam1) ?acts = Inr c
     \<and> running c
     \<and> frameSubscribers c = [(''viewer'', 0)] \<and> audioSubscribers c = [(''viewer'', 1)]
     \<and> map closed (chans c) = [False, False, True]
     \<and> UnsubscribeFrames c ''recorder'' = Inr c
     \<and> (\<exists>c'. Stop c = Inr c' \<and> frameSubscribers c' = [] \<and> audioSubscribers c' = []
           \<and> closed (chans c' ! 0) \<and> closed (chans c' ! 1) \<and> chans c' ! 2 = chans c ! 2
           \<and> Stop c' = Inr c')"
    ..
  let ?idle = "[DoSubscribeFrames ''viewer'', DoSubscribeAudio ''viewer'']"
  from stop_and_unsubscribe_close_once [of cam1 ?idle "''recorder''"]
  obtain d where dall: "run (NewAVCapturer cam1) ?idle = Inr d \<and> tables_ok d
     \<and> (running d \<longrightarrow>
          (\<exists>c'. Stop d = Inr c' \<and> frameSubscribers c' = [] \<and> audioSubscribers c' = []
             \<and> \<not> running c' \<and> length (chans c') = length (chans d)
             \<and> (\<forall>b < length (chans d). chans c' ! b =
                   (if b \<in> snd ` set (frameSubscribers d) \<union> snd ` set (audioSubscribers d)
                    then (chans d ! b)\<lparr>closed := True\<rparr> else chans d ! b))
             \<and> Stop c' = Inr c'))
     \<and> (\<not> running d \<longrightarrow> Stop d = Inr d)
     \<and> (map_of (frameSubscribers d) ''recorder'' = None
          \<longrightarrow> UnsubscribeFrames d ''recorder'' = Inr d)
     \<and> (map_of (audioSubscribers d) ''recorder'' = None
          \<longrightarrow> UnsubscribeAudio d ''recorder'' = Inr d)
     \<and> (\<exists>c1. UnsubscribeFrames d ''recorder'' = Inr c1 \<and> UnsubscribeFrames c1 ''recorder'' = Inr c1)
     \<and> (\<exists>c1. UnsubscribeAudio d ''recorder'' = Inr c1 \<and> UnsubscribeAudio c1 ''recorder'' = Inr c1)"
    ..
  note d = dall [THEN conjunct1]
    and idle = dall [THEN conjunct2, THEN conjunct2, THEN conjunct2, THEN conjunct1]
    and dabsent = dall [THEN conjunct2, THEN conjunct2, THEN conjunct2, THEN conjunct2,
        THEN conjunct2, THEN conjunct1]
  have "run (NewAVCapturer cam1) ?idle = Inr idleViewer"
    by (simp add: eval_defs idleViewer_def)
  with d have deq: "d = idleViewer"
    by simp
  have dfacts: "\<not> running d" "frameSubscribers d = [(''viewer'', 0)]"
    "audioSubscribers d = [(''viewer'', 1)]" "map_of (audioSubscribers d) ''recorder'' = None"
    by (simp_all add: deq idleViewer_def)
  from idle dfacts(1) have dstop: "Stop d = Inr d"
    by simp
  from dabsent dfacts(4) have dunsub: "UnsubscribeAudio d ''recorder'' = Inr d"
    by simp
  have "run (NewAVCapturer cam1) ?idle = Inr d
     \<and> \<not> running d
     \<and> frameSubscribers d = [(''viewer'', 0)] \<and> audioSubscribers d = [(''viewer'', 1)]
     \<and> Stop d = Inr d
     \<and> UnsubscribeAudio d ''recorder'' = Inr d"
    using d dfacts(1-3) dstop dunsub by (intro conjI) assumption+
  then have second: "\<exists>c. run (NewAVCapturer cam1) ?idle = Inr c
     \<and> \<not> running c
     \<and> frameSubscribers c = [(''viewer'', 0)] \<and> audioSubscribers c = [(''viewer'', 1)]
     \<and> Stop c = Inr c
     \<and> UnsubscribeAudio c ''recorder'' = Inr c"
    ..
  from first second show ?thesis
    by (rule conjI)
qed

text \<open>
  The claim has \<open>Stop\<close> close every registered queue and leave both tables empty. A
  capturer that was never started has one viewer subscribed to frames and to audio;
  \<open>Stop\<close> returns at its check of the running flag, so afterwards both tables still hold
  the viewer and both channels are open.
\<close>

theorem stop_idle_keeps_subscribers_counterexample:
  "run (NewAVCapturer cam1) [DoSubscribeFrames ''viewer'', DoSubscribeAudio ''viewer'']
     = Inr idleViewer
   \<and> Stop idleViewer = Inr idleViewer
   \<and> frameSubscribers idleViewer = [(''viewer'', 0)]
   \<and> audioSubscribers idleViewer = [(''viewer'', 1)]
   \<and> map closed (chans idleViewer) = [False, False]"
  by (simp add: eval_defs idleViewer_def)

subsection \<open>Overflow of a subscriber queue\<close>

lemma run_append:
  "run c (as @ bs) = (case run c as of Inl p \<Rightarrow> Inl p | Inr c' \<Rightarrow> run c' bs)"
  by (induction as arbitrary: c) (auto split: sum.splits)

lemma queues_start:
  "run (NewAVCapturer cam1)
     [DoStart SpawnOk, DoSubscribeFrames ''viewer'', DoSubscribeAudio ''viewer''] = Inr (queues 0 0)"
  by (simp add: queues_def eval_defs)

lemma queues_frame:
  "k < 30 \<Longrightarrow> publishFrame (queues k m) oldFrame = Inr (queues (Suc k) m)"
  by (simp add: queues_def eval_defs replicate_append_same)

lemma queues_audio:
  "m < 100 \<Longrightarrow> broadcastAudio (queues k m) oldAudio = Inr (queues k (Suc m))"
  by (simp add: queues_def eval_defs replicate_append_same)

lemma queues_frames:
  "k + n \<le> 30 \<Longrightarrow> run (queues k m) (replicate n (DoBroadcastFrame oldFrame)) = Inr (queues (k + n) m)"
  by (induction n arbitrary: k) (simp_all add: queues_frame)

lemma queues_audios:
  "m + n \<le> 100 \<Longrightarrow> run (queues k m) (replicate n (DoBroadcastAudio oldAudio)) = Inr (queues k (m + n))"
  by (induction n arbitrary: m) (simp_all add: queues_audio)

lemma full_queues_reachable:
  "run (NewAVCapturer cam1)
     ([DoStart SpawnOk, DoSubscribeFrames ''viewer'', DoSubscribeAudio ''viewer'']
        @ replicate 30 (DoBroadcastFrame oldFrame) @ replicate 100 (DoBroadcastAudio oldAudio))
     = Inr (queues 30 100)"
  using queues_frames [of 0 30 0] queues_audios [of 0 100 30]
  by (simp only: run_append queues_start sum.case) simp

lemma tables_ok_queues: "tables_ok (queues k m)"
  by (simp add: tables_ok_def queues_def)

text \<open>
  Claim C1, as the code has it. In a state whose tables are in order, for every
  subscriber of the frame table a frame broadcast appends the frame when the queue has
  room; on a full queue it removes the oldest item and appends the frame at the tail, so
  the subscriber next reads what was the second-oldest item and reads the new frame last;
  and when there is neither room nor an item to remove, the frame is dropped for that
  subscriber and its queue stays as it was. For every subscriber of the audio table an
  audio broadcast appends the block when the queue has room and otherwise leaves the
  queue untouched: the new block is the one dropped.
\<close>

theorem broadcast_overflow_policy:
  assumes "tables_ok c"
  shows "((sid, ch) \<in> set (frameSubscribers c) \<longrightarrow>
           (\<exists>c'. broadcastFrame c x = Inr c' \<and> frameSubscribers c' = frameSubscribers c
              \<and> (length (buf (chans c ! ch)) < cap (chans c ! ch)
                   \<longrightarrow> buf (chans c' ! ch) = buf (chans c ! ch) @ [x])
              \<and> (length (buf (chans c ! ch)) = cap (chans c ! ch) \<and> 0 < cap (chans c ! ch)
                   \<longrightarrow> buf (chans c' ! ch) = tl (buf (chans c ! ch)) @ [x])
              \<and> (buf (chans c ! ch) = [] \<and> cap (chans c ! ch) = 0
                   \<longrightarrow> chans c' ! ch = chans c ! ch)))
       \<and> ((sid, ch) \<in> set (audioSubscribers c) \<longrightarrow>
           (\<exists>c'. broadcastAudio c x = Inr c' \<and> audioSubscribers c' = audioSubscribers c
              \<and> (length (buf (chans c ! ch)) < cap (chans c ! ch)
                   \<longrightarrow> buf (chans c' ! ch) = buf (chans c ! ch) @ [x])
              \<and> (\<not> length (buf (chans c ! ch)) < cap (chans c ! ch)
                   \<longrightarrow> chans c' ! ch = chans c ! ch)))"
proof (intro conjI impI)
  assume mem: "(sid, ch) \<in> set (frameSubscribers c)"
  then have ref: "ch \<in> snd ` set (frameSubscribers c)"
    by force
  then have inb: "ch < length (chans c)"
    using tables_ok_valid [OF assms] by blast
  from broadcastFrame_ok [OF assms, of x] obtain h where
    res: "broadcastFrame c x = Inr (c\<lparr>chans := h\<rparr>)"
    and pt: "\<forall>b < length (chans c). h ! b =
                 (if b \<in> snd ` set (frameSubscribers c)
                  then (chans c ! b)\<lparr>buf :=
                         (if length (buf (chans c ! b)) < cap (chans c ! b)
                          then buf (chans c ! b) @ [x]
                          else if buf (chans c ! b) = [] then []
                          else if length (tl (buf (chans c ! b))) < cap (chans c ! b)
                          then tl (buf (chans c ! b)) @ [x]
                          else tl (buf (chans c ! b)))\<rparr>
                  else chans c ! b)"
    by blast
  let ?q = "chans c ! ch"
  have at: "h ! ch = ?q\<lparr>buf :=
                         (if length (buf ?q) < cap ?q then buf ?q @ [x]
                          else if buf ?q = [] then []
                          else if length (tl (buf ?q)) < cap ?q then tl (buf ?q) @ [x]
                          else tl (buf ?q))\<rparr>"
    using pt inb ref by simp
  have a: "buf (h ! ch) = buf ?q @ [x]" if "length (buf ?q) < cap ?q"
    using that by (simp add: at)
  have b: "buf (h ! ch) = tl (buf ?q) @ [x]" if "length (buf ?q) = cap ?q \<and> 0 < cap ?q"
  proof -
    from that have "buf ?q \<noteq> []" by auto
    moreover from that have "length (tl (buf ?q)) < cap ?q" by simp
    ultimately show ?thesis using that by (simp add: at)
  qed
  have c: "h ! ch = ?q" if "buf ?q = [] \<and> cap ?q = 0"
    using that by (simp add: at chan_buf_same)
  show "\<exists>c'. broadcastFrame c x = Inr c' \<and> frameSubscribers c' = frameSubscribers c
              \<and> (length (buf (chans c ! ch)) < cap (chans c ! ch)
                   \<longrightarrow> buf (chans c' ! ch) = buf (chans c ! ch) @ [x])
              \<and> (length (buf (chans c ! ch)) = cap (chans c ! ch) \<and> 0 < cap (chans c ! ch)
                   \<longrightarrow> buf (chans c' ! ch) = tl (buf (chans c ! ch)) @ [x])
              \<and> (buf (chans c ! ch) = [] \<and> cap (chans c ! ch) = 0
                   \<longrightarrow> chans c' ! ch = chans c ! ch)"
    using res a b c by (intro exI [of _ "c\<lparr>chans := h\<rparr>"]) simp
next
  assume mem: "(sid, ch) \<in> set (audioSubscribers c)"
  then have ref: "ch \<in> snd ` set (audioSubscribers c)"
    by force
  then have inb: "ch < length (chans c)"
    using tables_ok_valid [OF assms] by blast
  from broadcastAudio_ok [OF assms, of x] obtain h where
    res: "broadcastAudio c x = Inr (c\<lparr>chans := h\<rparr>)"
    and pt: "\<forall>b < length (chans c). h ! b =
                 (if b \<in> snd ` set (audioSubscribers c)
                  then (chans c ! b)\<lparr>buf :=
                         (if length (buf (chans c ! b)) < cap (chans c ! b)
                          then buf (chans c ! b) @ [x]
                          else buf (chans c ! b))\<rparr>
                  else chans c ! b)"
    by blast
  let ?q = "chans c ! ch"
  have at: "h ! ch = ?q\<lparr>buf := (if length (buf ?q) < cap ?q then buf ?q @ [x] else buf ?q)\<rparr>"
    using pt inb ref by simp
  have a: "buf (h ! ch) = buf ?q @ [x]" if "length (buf ?q) < cap ?q"
    using that by (simp add: at)
  have b: "h ! ch = ?q" if "\<not> length (buf ?q) < cap ?q"
    using that by (simp add: at chan_buf_same)
  show "\<exists>c'. broadcastAudio c x = Inr c' \<and> audioSubscribers c' = audioSubscribers c
              \<and> (length (buf (chans c ! ch)) < cap (chans c ! ch)
                   \<longrightarrow> buf (chans c' ! ch) = buf (chans c ! ch) @ [x])
              \<and> (\<not> length (buf (chans c ! ch)) < cap (chans c ! ch)
                   \<longrightarrow> chans c' ! ch = chans c ! ch)"
    using res a b by (intro exI [of _ "c\<lparr>chans := h\<rparr>"]) simp
qed

theorem broadcast_overflow_policy_witness:
  "tables_ok (queues 30 100)
   \<and> (''viewer'', 0) \<in> set (frameSubscribers (queues 30 100))
   \<and> (''viewer'', 1) \<in> set (audioSubscribers (queues 30 100))
   \<and> (\<exists>c'. broadcastFrame (queues 30 100) newFrame = Inr c'
         \<and> buf (chans c' ! 0) = replicate 29 oldFrame @ [newFrame])
   \<and> (\<exists>c'. broadcastAudio (queues 30 100) newAudio = Inr c'
         \<and> chans c' ! 1 = \<lparr>cap = 100, buf = replicate 100 oldAudio, closed = False\<rparr>)"
proof -
  let ?c = "queues 30 100"
  have ok: "tables_ok ?c"
    by (rule tables_ok_queues)
  have f: "(''viewer'', 0) \<in> set (frameSubscribers ?c)"
    and a: "(''viewer'', 1) \<in> set (audioSubscribers ?c)"
    by (simp_all add: queues_def)
  have q0: "chans ?c ! 0 = \<lparr>cap = 30, buf = replicate 30 oldFrame, closed = False\<rparr>"
    and q1: "chans ?c ! 1 = \<lparr>cap = 100, buf = replicate 100 oldAudio, closed = False\<rparr>"
    by (simp_all add: queues_def)
  from broadcast_overflow_policy [OF ok, of "''viewer''" 0 newFrame] f
  obtain c' where c': "broadcastFrame ?c newFrame = Inr c'"
    "length (buf (chans ?c ! 0)) = cap (chans ?c ! 0) \<and> 0 < cap (chans ?c ! 0)
       \<longrightarrow> buf (chans c' ! 0) = tl (buf (chans ?c ! 0)) @ [newFrame]"
    by blast
  from c'(2) have "buf (chans c' ! 0) = replicate 29 oldFrame @ [newFrame]"
    unfolding q0 by simp
  with c'(1) have one: "\<exists>c'. broadcastFrame ?c newFrame = Inr c'
         \<and> buf (chans c' ! 0) = replicate 29 oldFrame @ [newFrame]"
    by blast
  from broadcast_overflow_policy [OF ok, of "''viewer''" 1 newAudio] a
  obtain c'' where c'': "broadcastAudio ?c newAudio = Inr c''"
    "\<not> length (buf (chans ?c ! 1)) < cap (chans ?c ! 1) \<longrightarrow> chans c'' ! 1 = chans ?c ! 1"
    by blast
  from c''(2) have "chans c'' ! 1 = \<lparr>cap = 100, buf = replicate 100 oldAudio, closed = False\<rparr>"
    unfolding q1 by simp
  with c''(1) have two: "\<exists>c'. broadcastAudio ?c newAudio = Inr c'
         \<and> chans c' ! 1 = \<lparr>cap = 100, buf = replicate 100 oldAudio, closed = False\<rparr>"
    by blast
  from ok f a one two show ?thesis
    by (intro conjI)
qed

text \<open>
  Claim C1 as stated has the audio broadcast drop the oldest item too, and has the
  subscriber read the newest item next after an overflow. With 30 frames and 100 audio
  blocks queued for one viewer, an audio broadcast changes nothing, and after a frame
  broadcast the head of the queue is still an old frame.
\<close>

theorem broadcast_overflow_counterexample:
  "broadcastAudio (queues 30 100) newAudio = Inr (queues 30 100)
   \<and> newAudio \<notin> set (buf (chans (queues 30 100) ! 1))
   \<and> hd (buf (chans (queues 30 100) ! 1)) = oldAudio
   \<and> broadcastFrame (queues 30 100) newFrame
       = Inr ((queues 30 100)\<lparr>chans :=
            [\<lparr>cap = 30, buf = replicate 29 oldFrame @ [newFrame], closed = False\<rparr>,
             \<lparr>cap = 100, buf = replicate 100 oldAudio, closed = False\<rparr>]\<rparr>)
   \<and> hd (replicate 29 oldFrame @ [newFrame]) = oldFrame
   \<and> oldFrame \<noteq> newFrame"
proof -
  have a: "broadcastAudio (queues 30 100) newAudio = Inr (queues 30 100)"
    by (simp add: queues_def eval_defs)
  have b: "newAudio \<notin> set (buf (chans (queues 30 100) ! 1))"
    "hd (buf (chans (queues 30 100) ! 1)) = oldAudio"
    by (simp_all add: queues_def oldAudio_def newAudio_def)
  have "(30::nat) = Suc 29"
    by simp
  then have r30: "replicate 30 oldFrame = oldFrame # replicate 29 oldFrame"
    by (simp only: replicate_Suc)
  have c: "broadcastFrame (queues 30 100) newFrame
          = Inr ((queues 30 100)\<lparr>chans :=
               [\<lparr>cap = 30, buf = replicate 29 oldFrame @ [newFrame], closed = False\<rparr>,
                \<lparr>cap = 100, buf = replicate 100 oldAudio, closed = False\<rparr>]\<rparr>)"
    by (simp add: queues_def eval_defs r30)
  have d: "hd (replicate 29 oldFrame @ [newFrame]) = oldFrame" "oldFrame \<noteq> newFrame"
    by (simp_all add: oldFrame_def newFrame_def)
  from a b c d show ?thesis
    by (intro conjI)
qed

subsection \<open>Snapshots\<close>

lemma SubscribeFrames_eq:
  "SubscribeFrames c sid =
     (length (chans c),
      c\<lparr>chans := chans c @ [\<lparr>cap = 30, buf = [], closed = False\<rparr>],
        frameSubscribers := AList.update sid (length (chans c)) (frameSubscribers c)\<rparr>)"
  by (simp add: SubscribeFrames_def makeChan_def)

text \<open>
  Whatever the other goroutines do, a call of \<open>GetFrame\<close> on a running capturer returns
  and no step panics. With a cached frame at the time the cache is read, that frame is
  the result and the call itself changes nothing. Without one the result is the timeout
  error, a frame, or the nil frame with a nil error, and the snapshot id is not in the
  frame table when the call is over.
\<close>

lemma GetFrame_returns:
  assumes ok: "tables_ok c" and r: "running c"
  shows "\<exists>c0 res c'. run c (beforeCache sch) = Inr c0 \<and> GetFrame c now sch = Inr (res, c')
           \<and> tables_ok c'
           \<and> (\<forall>frame. lastFrame c0 = Some frame \<longrightarrow> res = Inr (Some frame) \<and> c' = c0)
           \<and> (lastFrame c0 = None \<longrightarrow>
                 (res = Inl TimeoutError \<or> res = Inr None \<or> (\<exists>f. res = Inr (Some f)))
                 \<and> map_of (frameSubscribers c') (''snapshot_'' @ itoa now) = None)"
proof -
  from run_ok [OF ok, of "beforeCache sch"]
  obtain c0 where c0: "run c (beforeCache sch) = Inr c0" and ok0: "tables_ok c0"
    by blast
  show ?thesis
  proof (cases "lastFrame c0")
    case (Some frame)
    with r c0 have "GetFrame c now sch = Inr (Inr (Some frame), c0)"
      by (simp add: GetFrame_def)
    with c0 ok0 Some show ?thesis
      by simp
  next
    case None
    define sub where "sub = ''snapshot_'' @ itoa now"
    from run_ok [OF ok0, of "beforeSubscribe sch"]
    obtain c1 where c1: "run c0 (beforeSubscribe sch) = Inr c1" and ok1: "tables_ok c1"
      by blast
    obtain ch c2 where s: "SubscribeFrames c1 sub = (ch, c2)"
      by force
    have ok2: "tables_ok c2"
      using tables_ok_SubscribeFrames [OF ok1, of sub] s by simp
    from run_ok [OF ok2, of "duringWait sch"]
    obtain c3 where c3: "run c2 (duringWait sch) = Inr c3" and ok3: "tables_ok c3"
      by blast
    obtain res h where aw: "awaitFrame (chans c3) ch (timerTaken sch) = (res, h)"
      by force
    have ok3': "tables_ok (c3\<lparr>chans := h\<rparr>)"
      using awaitFrame_tables_ok [OF ok3, of ch "timerTaken sch"] aw by simp
    from run_ok [OF ok3', of "beforeUnsubscribe sch"]
    obtain c4 where c4: "run (c3\<lparr>chans := h\<rparr>) (beforeUnsubscribe sch) = Inr c4"
      and ok4: "tables_ok c4"
      by blast
    from UnsubscribeFrames_twice [OF ok4, of sub]
    obtain c5 where c5: "UnsubscribeFrames c4 sub = Inr c5"
      and gone: "map_of (frameSubscribers c5) sub = None"
      by blast
    from UnsubscribeFrames_ok [OF ok4, of sub] c5 have ok5: "tables_ok c5"
      by simp
    have gf: "GetFrame c now sch = Inr (res, c5)"
      using r None
      unfolding GetFrame_def Let_def sub_def [symmetric]
      by (simp only: c0 c1 s split_conv c3 aw c4 c5 option.case sum.case
          not_True_eq_False if_False)
    have kinds: "res = Inl TimeoutError \<or> res = Inr None \<or> (\<exists>f. res = Inr (Some f))"
      using awaitFrame_cases [of "chans c3" ch "timerTaken sch"] aw by simp
    from c0 gf ok5 None kinds gone show ?thesis
      unfolding sub_def by simp
  qed
qed

lemma GetFrame_cached:
  "running c \<Longrightarrow> beforeCache sch = [] \<Longrightarrow> lastFrame c = Some frame
     \<Longrightarrow> GetFrame c now sch = Inr (Inr (Some frame), c)"
  by (simp add: GetFrame_def)

text \<open>
  When no other goroutine does anything during the call, the wait ends with the timer.
\<close>

lemma GetFrame_timeout:
  assumes "running c" and "lastFrame c = None"
    and "beforeCache sch = []" and "beforeSubscribe sch = []" and "duringWait sch = []"
    and "beforeUnsubscribe sch = []"
  shows "GetFrame c now sch =
     Inr (Inl TimeoutError,
          c\<lparr>chans := chans c @ [\<lparr>cap = 30, buf = [], closed = True\<rparr>],
            frameSubscribers := AList.delete (''snapshot_'' @ itoa now) (frameSubscribers c)\<rparr>)"
  using assms
  by (simp add: GetFrame_def awaitFrame_def SubscribeFrames_eq tryRecv_def UnsubscribeFrames_def
      closeChan_def update_conv' delete_update_same nth_append)

text \<open>
  When the demux loop publishes one frame during the wait and nothing else happens, the
  call returns that frame.
\<close>

lemma GetFrame_arrival:
  assumes ok: "tables_ok c" and r: "running c" and none: "lastFrame c = None"
  shows "\<exists>c'. GetFrame c now (frameInTime f) = Inr (Inr (Some f), c')
           \<and> frameSubscribers c' = AList.delete (''snapshot_'' @ itoa now) (frameSubscribers c)
           \<and> audioSubscribers c' = audioSubscribers c
           \<and> lastFrame c' = Some f \<and> running c'
           \<and> length (chans c') = Suc (length (chans c))
           \<and> chans c' ! length (chans c) = \<lparr>cap = 30, buf = [], closed = True\<rparr>"
proof -
  let ?sub = "''snapshot_'' @ itoa now"
  let ?ch = "length (chans c)"
  let ?F1 = "AList.update ?sub ?ch (frameSubscribers c)"
  let ?c1 = "c\<lparr>chans := chans c @ [\<lparr>cap = 30, buf = [], closed = False\<rparr>], frameSubscribers := ?F1\<rparr>"
  have sub: "SubscribeFrames c ?sub = (?ch, ?c1)"
    by (rule SubscribeFrames_eq)
  have ok1: "tables_ok ?c1"
    using tables_ok_SubscribeFrames [OF ok, of ?sub] unfolding sub snd_conv .
  let ?c1' = "?c1\<lparr>lastFrame := Some f\<rparr>"
  have ok1': "tables_ok ?c1'"
    using ok1 by (rule tables_ok_fields) simp_all
  from broadcastFrame_ok [OF ok1', of f] obtain h where h:
    "broadcastFrame ?c1' f = Inr (?c1'\<lparr>chans := h\<rparr>)"
    "length h = length (chans ?c1')"
    "\<forall>b < length (chans ?c1'). h ! b =
                 (if b \<in> snd ` set (frameSubscribers ?c1')
                  then (chans ?c1' ! b)\<lparr>buf :=
                         (if length (buf (chans ?c1' ! b)) < cap (chans ?c1' ! b)
                          then buf (chans ?c1' ! b) @ [f]
                          else if buf (chans ?c1' ! b) = [] then []
                          else if length (tl (buf (chans ?c1' ! b))) < cap (chans ?c1' ! b)
                          then tl (buf (chans ?c1' ! b)) @ [f]
                          else tl (buf (chans ?c1' ! b)))\<rparr>
                  else chans ?c1' ! b)"
    by blast
  have mem: "?ch \<in> snd ` set ?F1"
    using update_member [of ?sub ?ch "frameSubscribers c"] by force
  have len: "length h = Suc ?ch"
    using h(2) by simp
  have at: "h ! ?ch = \<lparr>cap = 30, buf = [f], closed = False\<rparr>"
    using h(3) mem by simp
  let ?c2 = "?c1'\<lparr>chans := h\<rparr>"
  have pub: "run ?c1 [DoBroadcastFrame f] = Inr ?c2"
    using h(1) by (simp add: publishFrame_def)
  let ?h3 = "h[?ch := \<lparr>cap = 30, buf = [], closed = False\<rparr>]"
  have recv: "awaitFrame (chans ?c2) ?ch False = (Inr (Some f), ?h3)"
    using len at by (simp add: awaitFrame_def tryRecv_def)
  let ?c3 = "?c2\<lparr>chans := ?h3\<rparr>"
  let ?c4 = "?c3\<lparr>chans := ?h3[?ch := \<lparr>cap = 30, buf = [], closed = True\<rparr>],
                frameSubscribers := AList.delete ?sub ?F1\<rparr>"
  have unsub: "UnsubscribeFrames ?c3 ?sub = Inr ?c4"
    using len by (simp add: UnsubscribeFrames_def closeChan_def update_conv')
  have sch: "beforeCache (frameInTime f) = []" "beforeSubscribe (frameInTime f) = []"
    "duringWait (frameInTime f) = [DoBroadcastFrame f]" "timerTaken (frameInTime f) = False"
    "beforeUnsubscribe (frameInTime f) = []"
    by (simp_all add: frameInTime_def)
  have nil: "run x [] = Inr x" for x
    by simp
  have "GetFrame c now (frameInTime f) = Inr (Inr (Some f), ?c4)"
    using r none
    by (simp only: GetFrame_def Let_def sch nil sub split_conv pub recv unsub option.case sum.case
        not_True_eq_False if_False)
  moreover have "frameSubscribers ?c4 = AList.delete ?sub (frameSubscribers c)"
    by (simp add: delete_update_same)
  moreover have "chans ?c4 ! ?ch = \<lparr>cap = 30, buf = [], closed = True\<rparr>"
    using len by simp
  moreover have "length (chans ?c4) = Suc ?ch"
    using len by simp
  moreover have "audioSubscribers ?c4 = audioSubscribers c" "lastFrame ?c4 = Some f" "running ?c4"
    using r by simp_all
  ultimately show ?thesis
    by blast
qed

text \<open>
  Claim C6. The claim has \<open>GetFrame\<close> on a running capturer, with no cached frame, end in
  a frame or in the timeout error. The capturer is running and has no cached frame when
  the call starts, and \<open>Stop\<close> runs while the call waits: \<open>Stop\<close> closes the channel of the
  snapshot subscription, the receive of the \<open>select\<close> fires on the closed channel, and the
  call returns the nil frame with a nil error, which is neither. The starting state is
  reached from a new capturer by a start and two subscriptions.
\<close>

theorem getFrame_stop_during_wait:
  "run (NewAVCapturer cam1)
      [DoStart SpawnOk, DoSubscribeFrames ''viewer'', DoSubscribeAudio ''viewer''] = Inr (queues 0 0)
   \<and> running (queues 0 0) \<and> lastFrame (queues 0 0) = None
   \<and> GetFrame (queues 0 0) clock stoppedMeanwhile =
       Inr (Inr None,
            \<lparr>config = cam1, cmd = False, spawned = 1, running = False, lastFrame = None,
             frameSubscribers = [], audioSubscribers = [],
             chans = [\<lparr>cap = 30, buf = [], closed = True\<rparr>, \<lparr>cap = 100, buf = [], closed = True\<rparr>,
                      \<lparr>cap = 30, buf = [], closed = True\<rparr>]\<rparr>)"
proof -
  have reach: "run (NewAVCapturer cam1)
      [DoStart SpawnOk, DoSubscribeFrames ''viewer'', DoSubscribeAudio ''viewer''] = Inr (queues 0 0)"
    by (simp add: eval_defs queues_def)
  have st: "running (queues 0 0)" "lastFrame (queues 0 0) = None"
    by (simp_all add: queues_def)
  let ?sub = "''snapshot_'' @ itoa clock"
  let ?c2 = "(queues 0 0)\<lparr>chans := chans (queues 0 0) @ [\<lparr>cap = 30, buf = [], closed = False\<rparr>],
               frameSubscribers := [(''viewer'', 0), (?sub, 2)]\<rparr>"
  let ?c3 = "\<lparr>config = cam1, cmd = False, spawned = 1, running = False, lastFrame = None,
             frameSubscribers = [], audioSubscribers = [],
             chans = [\<lparr>cap = 30, buf = [], closed = True\<rparr>, \<lparr>cap = 100, buf = [], closed = True\<rparr>,
                      \<lparr>cap = 30, buf = [], closed = True\<rparr>]\<rparr>"
  have sub: "SubscribeFrames (queues 0 0) ?sub = (2, ?c2)"
    by (simp add: SubscribeFrames_eq queues_def)
  have stop: "run ?c2 [DoStop] = Inr ?c3"
    by (simp add: queues_def Stop_def stopCapture_def stopCloseFrames_def stopCloseAudio_def
        stopFinish_def closeChan_def)
  have aw: "awaitFrame (chans ?c3) 2 False = (Inr None, chans ?c3)"
    by (simp add: awaitFrame_def tryRecv_def)
  have unsub: "UnsubscribeFrames (?c3\<lparr>chans := chans ?c3\<rparr>) ?sub = Inr ?c3"
    by (simp add: UnsubscribeFrames_def)
  have sch: "beforeCache stoppedMeanwhile = []" "beforeSubscribe stoppedMeanwhile = []"
    "duringWait stoppedMeanwhile = [DoStop]" "timerTaken stoppedMeanwhile = False"
    "beforeUnsubscribe stoppedMeanwhile = []"
    by (simp_all add: stoppedMeanwhile_def)
  have nil: "run x [] = Inr x" for x
    by simp
  have "GetFrame (queues 0 0) clock stoppedMeanwhile = Inr (Inr None, ?c3)"
    using st
    by (simp only: GetFrame_def Let_def sch nil sub split_conv stop aw unsub option.case sum.case
        not_True_eq_False if_False)
  with reach st show ?thesis
    by (intro conjI)
qed

text \<open>
  Claim C10. On a capturer that is not running, \<open>GetFrame\<close> returns the not-running
  error whatever the other goroutines would have done, and the state is unchanged: no
  subscription, no channel, and the cached frame, if any, is not returned.
\<close>

theorem getFrame_not_running:
  "\<not> running c \<Longrightarrow> GetFrame c now sch = Inr (Inl NotActiveError, c)"
  by (simp add: GetFrame_def)

theorem getFrame_not_running_witness:
  "\<exists>c. run (NewAVCapturer cam1) [DoStart SpawnOk, DoBroadcastFrame oldFrame, DoStop] = Inr c
     \<and> \<not> running c \<and> lastFrame c = Some oldFrame \<and> frameSubscribers c = []
     \<and> GetFrame c clock (frameInTime newFrame) = Inr (Inl NotActiveError, c)"
proof -
  let ?c = "\<lparr>config = cam1, cmd = False, spawned = 1, running = False, lastFrame = Some oldFrame,
             frameSubscribers = [], audioSubscribers = [], chans = []\<rparr>"
  have reach: "run (NewAVCapturer cam1) [DoStart SpawnOk, DoBroadcastFrame oldFrame, DoStop] = Inr ?c"
    by (simp add: eval_defs)
  have nr: "\<not> running ?c"
    by simp
  from getFrame_not_running [OF nr, of clock "frameInTime newFrame"]
  have "GetFrame ?c clock (frameInTime newFrame) = Inr (Inl NotActiveError, ?c)" .
  with reach have "run (NewAVCapturer cam1) [DoStart SpawnOk, DoBroadcastFrame oldFrame, DoStop] = Inr ?c
     \<and> \<not> running ?c \<and> lastFrame ?c = Some oldFrame \<and> frameSubscribers ?c = []
     \<and> GetFrame ?c clock (frameInTime newFrame) = Inr (Inl NotActiveError, ?c)"
    by simp
  then show ?thesis ..
qed

section \<open>Properties of the sink managers\<close>

subsection \<open>Unfolding the managers on concrete worlds\<close>

lemmas world_defs = NewWorld_def enabledCameras_def AddCapturer_def GetCapturer_def IsRunning_def
  HasAudio_def StartStream_def Streamer_Start_def NewStreamer_def StartOutput_def
  HLSOutput_Start_def NewHLSOutput_def spawn_def cam1_def cam2_def

subsection \<open>Starting twice\<close>

lemma Start_running: "running c \<Longrightarrow> Start c env = (Inr (), c)"
  by (simp add: Start_def)

lemma funpow_fixed: "f x = x \<Longrightarrow> (f ^^ n) x = x"
  by (induction n) simp_all

lemma StartStream_active:
  assumes "map_of (streamers w) cameraID = Some s" and "s_running s"
  shows "StartStream w cameraID rtmpURL env = (Inl AlreadyActiveError, w)"
  using assms by (simp add: StartStream_def)

lemma StartStream_fresh:
  assumes cam: "map_of (cameras w) cameraID = Some camConfig"
    and cap: "map_of (capturers w) cameraID = Some capturer"
    and run: "running capturer"
    and idle: "\<forall>s. map_of (streamers w) cameraID = Some s \<longrightarrow> \<not> s_running s"
  shows "\<exists>w1. StartStream w cameraID rtmpURL SpawnOk = (Inr (), w1)
           \<and> procs w1 = procs w @ [nextPid w]
           \<and> map_of (streamers w1) cameraID
               = Some \<lparr>s_cameraID = cameraID, s_rtmpURL = rtmpURL, s_cmd = Some (nextPid w),
                       s_running = True\<rparr>"
proof -
  have no: "\<not> (case map_of (streamers w) cameraID of Some s \<Rightarrow> s_running s | None \<Rightarrow> False)"
    using idle by (cases "map_of (streamers w) cameraID") simp_all
  show ?thesis
    using cam cap run no
    by (simp add: StartStream_def GetCapturer_def IsRunning_def Streamer_Start_def NewStreamer_def
        spawn_def Let_def update_conv')
qed

lemma StartOutput_capturer_any:
  assumes "map_of (hls_cameras w) cameraID = Some camCfg"
    and "map_of (capturers w) cameraID = Some capturer"
    and "\<forall>h. map_of (outputs w) cameraID = Some h \<longrightarrow> \<not> h_running h"
  shows "\<exists>w'. StartOutput w cameraID HlsOk = (Inr (), w') \<and> procs w' = procs w @ [nextPid w]
           \<and> map_of (outputs w') cameraID
               = Some \<lparr>h_capturer = cameraID, h_cmd = Some (nextPid w), h_running = True\<rparr>"
proof -
  have no: "\<not> (case map_of (outputs w) cameraID of Some h \<Rightarrow> h_running h | None \<Rightarrow> False)"
    using assms(3) by (cases "map_of (outputs w) cameraID") simp_all
  show ?thesis
    using assms(1,2) no
    by (simp add: StartOutput_def GetCapturer_def HLSOutput_Start_def NewHLSOutput_def spawn_def
        Let_def update_conv')
qed

lemma StartOutput_active:
  assumes "map_of (outputs w) cameraID = Some h" and "h_running h"
  shows "StartOutput w cameraID env = (Inl AlreadyActiveError, w)"
  using assms by (simp add: StartOutput_def)



text \<open>
  Claim C7. \<open>Start\<close> on a running capturer returns success and leaves the capturer as it
  is (so its process count too), however often it is called. For a registered camera with
  a running capturer and no active push-stream pipeline, a first \<open>StartStream\<close> that
  spawns its process succeeds and adds exactly that one process; every further
  \<open>StartStream\<close> for the camera, whatever the target and whatever the operating system
  would do, returns the already-active error and leaves the world, its processes
  included, as it is. The segmented-file manager's \<open>StartOutput\<close> behaves the same way.
\<close>

theorem start_twice:
  "(running c \<longrightarrow> Start c env = (Inr (), c) \<and> ((\<lambda>c. snd (Start c env)) ^^ n) c = c)
   \<and> (map_of (cameras w) cameraID = Some camConfig
        \<and> map_of (capturers w) cameraID = Some capturer \<and> running capturer
        \<and> (\<forall>s. map_of (streamers w) cameraID = Some s \<longrightarrow> \<not> s_running s)
      \<longrightarrow> (\<exists>w1. StartStream w cameraID rtmpURL SpawnOk = (Inr (), w1)
             \<and> procs w1 = procs w @ [nextPid w]
             \<and> StartStream w1 cameraID rtmpURL' env' = (Inl AlreadyActiveError, w1)
             \<and> ((\<lambda>w. snd (StartStream w cameraID rtmpURL' env')) ^^ n) w1 = w1))
   \<and> (map_of (hls_cameras w) cameraID = Some camConfig
        \<and> map_of (capturers w) cameraID = Some capturer
        \<and> (\<forall>h. map_of (outputs w) cameraID = Some h \<longrightarrow> \<not> h_running h)
      \<longrightarrow> (\<exists>w1. StartOutput w cameraID HlsOk = (Inr (), w1)
             \<and> procs w1 = procs w @ [nextPid w]
             \<and> StartOutput w1 cameraID henv = (Inl AlreadyActiveError, w1)
             \<and> ((\<lambda>w. snd (StartOutput w cameraID henv)) ^^ n) w1 = w1))"
proof (intro conjI impI)
  assume r: "running c"
  then show "Start c env = (Inr (), c)"
    by (rule Start_running)
  then show "((\<lambda>c. snd (Start c env)) ^^ n) c = c"
    by (intro funpow_fixed) simp
next
  assume a: "map_of (cameras w) cameraID = Some camConfig
        \<and> map_of (capturers w) cameraID = Some capturer \<and> running capturer
        \<and> (\<forall>s. map_of (streamers w) cameraID = Some s \<longrightarrow> \<not> s_running s)"
  from StartStream_fresh [of w cameraID camConfig capturer rtmpURL] a
  obtain w1 where w1: "StartStream w cameraID rtmpURL SpawnOk = (Inr (), w1)"
    "procs w1 = procs w @ [nextPid w]"
    "map_of (streamers w1) cameraID
       = Some \<lparr>s_cameraID = cameraID, s_rtmpURL = rtmpURL, s_cmd = Some (nextPid w),
               s_running = True\<rparr>"
    by blast
  have again: "StartStream w1 cameraID rtmpURL' env' = (Inl AlreadyActiveError, w1)"
    by (rule StartStream_active [OF w1(3)]) simp
  then have "((\<lambda>w. snd (StartStream w cameraID rtmpURL' env')) ^^ n) w1 = w1"
    by (intro funpow_fixed) simp
  with w1(1,2) again
  show "\<exists>w1. StartStream w cameraID rtmpURL SpawnOk = (Inr (), w1)
             \<and> procs w1 = procs w @ [nextPid w]
             \<and> StartStream w1 cameraID rtmpURL' env' = (Inl AlreadyActiveError, w1)
             \<and> ((\<lambda>w. snd (StartStream w cameraID rtmpURL' env')) ^^ n) w1 = w1"
    by (intro exI [of _ w1]) simp
next
  assume a: "map_of (hls_cameras w) cameraID = Some camConfig
        \<and> map_of (capturers w) cameraID = Some capturer
        \<and> (\<forall>h. map_of (outputs w) cameraID = Some h \<longrightarrow> \<not> h_running h)"
  from StartOutput_capturer_any [of w cameraID camConfig capturer] a
  obtain w1 where w1: "StartOutput w cameraID HlsOk = (Inr (), w1)"
    "procs w1 = procs w @ [nextPid w]"
    "map_of (outputs w1) cameraID
       = Some \<lparr>h_capturer = cameraID, h_cmd = Some (nextPid w), h_running = True\<rparr>"
    by blast
  have again: "StartOutput w1 cameraID henv = (Inl AlreadyActiveError, w1)"
    by (rule StartOutput_active [OF w1(3)]) simp
  then have "((\<lambda>w. snd (StartOutput w cameraID henv)) ^^ n) w1 = w1"
    by (intro funpow_fixed) simp
  with w1(1,2) again
  show "\<exists>w1. StartOutput w cameraID HlsOk = (Inr (), w1)
             \<and> procs w1 = procs w @ [nextPid w]
             \<and> StartOutput w1 cameraID henv = (Inl AlreadyActiveError, w1)
             \<and> ((\<lambda>w. snd (StartOutput w cameraID henv)) ^^ n) w1 = w1"
    by (intro exI [of _ w1]) simp
qed

theorem start_twice_witness:
  "running (queues 0 0) \<and> Start (queues 0 0) SpawnOk = (Inr (), queues 0 0)
   \<and> spawned (snd (Start (queues 0 0) SpawnOk)) = 1
   \<and> (\<exists>w1. StartStream (NewWorld [(''cam1'', queues 0 0)] [cam1, cam2]) ''cam1''
               ''rtmp://live.example/a'' SpawnOk = (Inr (), w1)
         \<and> procs w1 = [0]
         \<and> StartStream w1 ''cam1'' ''rtmp://live.example/a'' SpawnOk = (Inl AlreadyActiveError, w1))
   \<and> (\<exists>w1. StartOutput (NewWorld [(''cam1'', queues 0 0)] [cam1, cam2]) ''cam1'' HlsOk
               = (Inr (), w1)
         \<and> procs w1 = [0]
         \<and> StartOutput w1 ''cam1'' HlsOk = (Inl AlreadyActiveError, w1))"
proof -
  let ?w = "NewWorld [(''cam1'', queues 0 0)] [cam1, cam2]"
  let ?url = "''rtmp://live.example/a''"
  have r: "running (queues 0 0)"
    by (simp add: queues_def)
  have sp: "spawned (queues 0 0) = 1"
    by (simp add: queues_def)
  have pre: "map_of (cameras ?w) ''cam1'' = Some cam1
        \<and> map_of (capturers ?w) ''cam1'' = Some (queues 0 0) \<and> running (queues 0 0)
        \<and> (\<forall>s. map_of (streamers ?w) ''cam1'' = Some s \<longrightarrow> \<not> s_running s)"
    using r by (simp add: world_defs)
  have pr: "procs ?w = []" "nextPid ?w = 0"
    by (simp_all add: NewWorld_def)
  note t = start_twice [of "queues 0 0" SpawnOk 1 ?w "''cam1''" cam1 "queues 0 0" ?url ?url SpawnOk
      HlsOk]
  from t [THEN conjunct1, rule_format, OF r]
  have one: "Start (queues 0 0) SpawnOk = (Inr (), queues 0 0)"
    by (rule conjunct1)
  from t [THEN conjunct2, THEN conjunct1, rule_format, OF pre]
  obtain w1 where w1: "StartStream ?w ''cam1'' ?url SpawnOk = (Inr (), w1)
             \<and> procs w1 = procs ?w @ [nextPid ?w]
             \<and> StartStream w1 ''cam1'' ?url SpawnOk = (Inl AlreadyActiveError, w1)
             \<and> ((\<lambda>w. snd (StartStream w ''cam1'' ?url SpawnOk)) ^^ 1) w1 = w1"
    ..
  have "StartStream ?w ''cam1'' ?url SpawnOk = (Inr (), w1)
         \<and> procs w1 = [0]
         \<and> StartStream w1 ''cam1'' ?url SpawnOk = (Inl AlreadyActiveError, w1)"
    using w1 [THEN conjunct1] w1 [THEN conjunct2, THEN conjunct1, unfolded pr append_Nil]
      w1 [THEN conjunct2, THEN conjunct2, THEN conjunct1]
    by (intro conjI)
  then have two: "\<exists>w1. StartStream ?w ''cam1'' ?url SpawnOk = (Inr (), w1)
         \<and> procs w1 = [0]
         \<and> StartStream w1 ''cam1'' ?url SpawnOk = (Inl AlreadyActiveError, w1)"
    by (rule exI [of _ w1])
  have three: "spawned (snd (Start (queues 0 0) SpawnOk)) = 1"
    unfolding one snd_conv by (rule sp)
  have pre': "map_of (hls_cameras ?w) ''cam1'' = Some cam1
        \<and> map_of (capturers ?w) ''cam1'' = Some (queues 0 0)
        \<and> (\<forall>h. map_of (outputs ?w) ''cam1'' = Some h \<longrightarrow> \<not> h_running h)"
    by (simp add: world_defs)
  from t [THEN conjunct2, THEN conjunct2, rule_format, OF pre']
  obtain w2 where w2: "StartOutput ?w ''cam1'' HlsOk = (Inr (), w2)
             \<and> procs w2 = procs ?w @ [nextPid ?w]
             \<and> StartOutput w2 ''cam1'' HlsOk = (Inl AlreadyActiveError, w2)
             \<and> ((\<lambda>w. snd (StartOutput w ''cam1'' HlsOk)) ^^ 1) w2 = w2"
    ..
  have "StartOutput ?w ''cam1'' HlsOk = (Inr (), w2)
         \<and> procs w2 = [0]
         \<and> StartOutput w2 ''cam1'' HlsOk = (Inl AlreadyActiveError, w2)"
    using w2 [THEN conjunct1] w2 [THEN conjunct2, THEN conjunct1, unfolded pr append_Nil]
      w2 [THEN conjunct2, THEN conjunct2, THEN conjunct1]
    by (intro conjI)
  then have four: "\<exists>w1. StartOutput ?w ''cam1'' HlsOk = (Inr (), w1)
         \<and> procs w1 = [0]
         \<and> StartOutput w1 ''cam1'' HlsOk = (Inl AlreadyActiveError, w1)"
    by (rule exI [of _ w2])
  from r one three two four show ?thesis
    by (intro conjI)
qed

subsection \<open>Unregistered cameras\<close>

lemma streamers_registered_iff:
  "streamers_registered w \<longleftrightarrow> (\<forall>cid \<in> fst ` set (streamers w). map_of (cameras w) cid \<noteq> None)"
  by (auto simp: streamers_registered_def list_all_iff)

lemma streamers_registered_NewWorld: "streamers_registered (NewWorld caps cams)"
  by (simp add: streamers_registered_def NewWorld_def)

lemma cameras_spawn [simp]: "cameras (snd (spawn w)) = cameras w" "streamers (snd (spawn w)) = streamers w"
  by (simp_all add: spawn_def)

lemma cameras_kill [simp]: "cameras (kill w p) = cameras w" "streamers (kill w p) = streamers w"
  by (simp_all add: kill_def split: option.splits)

lemma StartStream_tables:
  "cameras (snd (StartStream w cid url env)) = cameras w
   \<and> fst ` set (streamers (snd (StartStream w cid url env)))
       \<subseteq> (if map_of (cameras w) cid = None then {} else {cid}) \<union> fst ` set (streamers w)"
  by (auto simp: StartStream_def GetCapturer_def Streamer_Start_def spawn_def Let_def dom_update
      split: option.splits spawn_env.splits)

lemma StopStream_tables:
  "cameras (StopStream w cid) = cameras w
   \<and> fst ` set (streamers (StopStream w cid)) \<subseteq> fst ` set (streamers w)"
  using dom_delete_subset [of cid "streamers w"]
  by (auto simp: StopStream_def Streamer_Stop_def Let_def split: option.splits)

lemma StreamerExited_tables:
  "cameras (StreamerExited w cid) = cameras w
   \<and> fst ` set (streamers (StreamerExited w cid)) \<subseteq> fst ` set (streamers w)"
proof (cases "map_of (streamers w) cid")
  case None
  then show ?thesis by (simp add: StreamerExited_def)
next
  case (Some s)
  then have "cid \<in> fst ` set (streamers w)"
    by (force dest: map_of_SomeD)
  with Some show ?thesis
    by (auto simp: StreamerExited_def dom_update)
qed

lemma StartOutput_tables:
  "cameras (snd (StartOutput w cid env)) = cameras w
   \<and> streamers (snd (StartOutput w cid env)) = streamers w"
  by (auto simp: StartOutput_def GetCapturer_def HLSOutput_Start_def spawn_def Let_def
      split: option.splits hls_env.splits)

lemma world_step_tables:
  "cameras (world_step w op) = cameras w
   \<and> fst ` set (streamers (world_step w op))
       \<subseteq> {cid. map_of (cameras w) cid \<noteq> None} \<union> fst ` set (streamers w)"
proof (cases op)
  case (OpStartStream cid url env)
  then show ?thesis using StartStream_tables [of w cid url env] by (auto split: if_splits)
next
  case (OpStopStream cid)
  then show ?thesis using StopStream_tables [of w cid] by auto
next
  case (OpStreamerExited cid)
  then show ?thesis using StreamerExited_tables [of w cid] by auto
next
  case (OpStartOutput cid env)
  then show ?thesis using StartOutput_tables [of w cid env] by auto
next
  case (OpCapturer cid a)
  then show ?thesis by (auto split: option.splits sum.splits)
qed

lemma world_run_tables:
  "streamers_registered w \<Longrightarrow>
     cameras (world_run w ops) = cameras w \<and> streamers_registered (world_run w ops)"
proof (induction ops arbitrary: w)
  case Nil
  then show ?case by (simp add: world_run_def)
next
  case (Cons op ops)
  have c: "cameras (world_step w op) = cameras w"
    using world_step_tables [of w op] by simp
  have "streamers_registered (world_step w op)"
    unfolding streamers_registered_iff c
    using world_step_tables [of w op] Cons.prems unfolding streamers_registered_iff by blast
  from Cons.IH [OF this] c show ?case
    by (simp add: world_run_def)
qed

lemma StartStream_unregistered:
  assumes "streamers_registered w" and "map_of (cameras w) cameraID = None"
  shows "StartStream w cameraID rtmpURL env = (Inl NotFoundError, w)"
proof -
  have "cameraID \<notin> fst ` set (streamers w)"
    using assms unfolding streamers_registered_iff by blast
  then have "map_of (streamers w) cameraID = None"
    by (simp add: map_of_eq_None_iff)
  with assms(2) show ?thesis
    by (simp add: StartStream_def)
qed

text \<open>
  Claim C8. In every world reached from start-up by calls of the managers, exits of
  streamer processes and steps of capturers, \<open>StartStream\<close> for a camera id that is not
  among the enabled configured cameras returns the not-found error and the world is
  unchanged: the same processes, the same capturers with the same subscriptions, the same
  streamer table.
\<close>

theorem start_stream_unregistered:
  assumes "map_of (enabledCameras cams) cameraID = None"
  shows "StartStream (world_run (NewWorld caps cams) ops) cameraID rtmpURL env
           = (Inl NotFoundError, world_run (NewWorld caps cams) ops)"
proof -
  let ?w = "world_run (NewWorld caps cams) ops"
  from world_run_tables [OF streamers_registered_NewWorld, of caps cams ops]
  have "cameras ?w = cameras (NewWorld caps cams)" "streamers_registered ?w"
    by simp_all
  moreover have "cameras (NewWorld caps cams) = enabledCameras cams"
    by (simp add: NewWorld_def)
  ultimately show ?thesis
    using assms by (intro StartStream_unregistered) simp_all
qed


theorem start_stream_unregistered_witness:
  "map_of (enabledCameras [cam1, cam2]) ''cam2'' = None
   \<and> map_of (enabledCameras [cam1, cam2]) ''cam9'' = None
   \<and> procs (world_run (NewWorld [(''cam1'', queues 0 0)] [cam1, cam2])
              [OpStartStream ''cam1'' ''rtmp://live.example/a'' SpawnOk]) = [0]
   \<and> StartStream (world_run (NewWorld [(''cam1'', queues 0 0)] [cam1, cam2])
                   [OpStartStream ''cam1'' ''rtmp://live.example/a'' SpawnOk])
        ''cam2'' ''rtmp://live.example/b'' SpawnOk
       = (Inl NotFoundError,
          world_run (NewWorld [(''cam1'', queues 0 0)] [cam1, cam2])
            [OpStartStream ''cam1'' ''rtmp://live.example/a'' SpawnOk])
   \<and> StartStream (world_run (NewWorld [(''cam1'', queues 0 0)] [cam1, cam2])
                   [OpStartStream ''cam1'' ''rtmp://live.example/a'' SpawnOk])
        ''cam9'' ''rtmp://live.example/b'' SpawnOk
       = (Inl NotFoundError,
          world_run (NewWorld [(''cam1'', queues 0 0)] [cam1, cam2])
            [OpStartStream ''cam1'' ''rtmp://live.example/a'' SpawnOk])"
proof -
  have none: "map_of (enabledCameras [cam1, cam2]) ''cam2'' = None"
    "map_of (enabledCameras [cam1, cam2]) ''cam9'' = None"
    by (simp_all add: enabledCameras_def cam1_def cam2_def)
  have pr: "procs (world_run (NewWorld [(''cam1'', queues 0 0)] [cam1, cam2])
              [OpStartStream ''cam1'' ''rtmp://live.example/a'' SpawnOk]) = [0]"
    by (simp add: world_run_def world_defs queues_def SubscribeFrames_def SubscribeAudio_def
        makeChan_def Let_def)
  from none pr
    start_stream_unregistered [OF none(1), of "[(''cam1'', queues 0 0)]"
      "[OpStartStream ''cam1'' ''rtmp://live.example/a'' SpawnOk]" "''rtmp://live.example/b''" SpawnOk]
    start_stream_unregistered [OF none(2), of "[(''cam1'', queues 0 0)]"
      "[OpStartStream ''cam1'' ''rtmp://live.example/a'' SpawnOk]" "''rtmp://live.example/b''" SpawnOk]
  show ?thesis
    by (intro conjI)
qed

subsection \<open>Starting a sink while the capturer is stopped\<close>

lemma StartStream_capturer_stopped:
  assumes "map_of (cameras w) cameraID = Some camConfig"
    and "map_of (capturers w) cameraID = Some capturer" and "\<not> running capturer"
  shows "StartStream w cameraID rtmpURL env = (Inl AlreadyActiveError, w)
       \<or> StartStream w cameraID rtmpURL env = (Inl NotActiveError, w)"
  using assms by (simp add: StartStream_def GetCapturer_def IsRunning_def)

text \<open>
  Claim C2 at a concrete world: camera \<open>cam1\<close> is registered with both managers and its
  capturer has been added but never started. \<open>StartOutput\<close> of the segmented-file manager
  succeeds and a transcoding process is running afterwards, where the claim has an error
  and no process; \<open>StartStream\<close> of the push-stream manager on the same world returns the
  not-active error and changes nothing.
\<close>

theorem hls_start_with_stopped_capturer:
  "map_of (hls_cameras (NewWorld (snd (AddCapturer [] cam1)) [cam1, cam2])) ''cam1'' = Some cam1
   \<and> map_of (capturers (NewWorld (snd (AddCapturer [] cam1)) [cam1, cam2])) ''cam1''
       = Some (NewAVCapturer cam1)
   \<and> \<not> IsRunning (NewAVCapturer cam1)
   \<and> procs (NewWorld (snd (AddCapturer [] cam1)) [cam1, cam2]) = []
   \<and> fst (StartOutput (NewWorld (snd (AddCapturer [] cam1)) [cam1, cam2]) ''cam1'' HlsOk) = Inr ()
   \<and> procs (snd (StartOutput (NewWorld (snd (AddCapturer [] cam1)) [cam1, cam2]) ''cam1'' HlsOk))
       = [0]
   \<and> StartStream (NewWorld (snd (AddCapturer [] cam1)) [cam1, cam2]) ''cam1''
         ''rtmp://live.example/a'' SpawnOk
       = (Inl NotActiveError, NewWorld (snd (AddCapturer [] cam1)) [cam1, cam2])"
  by (simp add: world_defs NewAVCapturer_def)

end
